theory Spec2Isabelle
  imports Main "HOL-Library.Log_Nat" "HOL-Library.Word"
begin

section \<open>Python numerics used by \<^verbatim>\<open>src/main.py\<close>\<close>

text \<open>
  Python integers are unbounded (\<open>int\<close>). A Python \<^verbatim>\<open>float\<close> is an IEEE binary64 number;
  a finite one is represented by the rational it denotes, and every operation rounds its
  exact result to the nearest binary64 value, ties to even. Infinity only arises from a
  product that overflows and is written \<open>None\<close>.
\<close>

type_synonym byte = "8 word"

datatype error =
    ZeroDivisionError
  | OverflowError
  | CodecError string
  | HTTPException int string

definition pow2 :: "int \<Rightarrow> rat" where
  "pow2 k = 2 powi k"

definition round_half_even :: "rat \<Rightarrow> int" where
  "round_half_even x =
     (let f = \<lfloor>x\<rfloor>; d = x - of_int f
      in if d < 1 / 2 then f
         else if 1 / 2 < d then f + 1
         else if even f then f else f + 1)"

text \<open>The binary exponent \<open>e\<close> of a non-zero rational: \<open>2^e \<le> \<bar>x\<bar> < 2^(e+1)\<close>.\<close>

definition binade :: "rat \<Rightarrow> int" where
  "binade x =
     (let a = \<bar>x\<bar>
      in if 1 \<le> a then bitlen \<lfloor>a\<rfloor> - 1 else - bitlen (\<lceil>1 / a\<rceil> - 1))"

text \<open>
  Rounding to binary64: 53 significant bits, the exponent not below \<open>-1022\<close> (below it the
  spacing stays \<open>2^-1074\<close>, the subnormal range).
\<close>

definition round_double :: "rat \<Rightarrow> rat" where
  "round_double x =
     (if x = 0 then 0
      else let u = pow2 (max (binade x) (- 1022) - 52)
           in of_int (round_half_even (x / u)) * u)"

definition double_overflow :: "rat \<Rightarrow> bool" where
  "double_overflow r = (pow2 1024 \<le> \<bar>r\<bar>)"

text \<open>\<^verbatim>\<open>a / b\<close> on two ints: true division, correctly rounded.\<close>

definition int_truediv :: "int \<Rightarrow> int \<Rightarrow> error + rat" where
  "int_truediv a b =
     (if b = 0 then Inl ZeroDivisionError
      else let r = round_double (of_int a / of_int b)
           in if double_overflow r then Inl OverflowError else Inr r)"

text \<open>The conversion of an int operand in \<^verbatim>\<open>float * int\<close>.\<close>

definition float_of_int :: "int \<Rightarrow> error + rat" where
  "float_of_int n =
     (let r = round_double (of_int n)
      in if double_overflow r then Inl OverflowError else Inr r)"

text \<open>\<^verbatim>\<open>x * y\<close> on two floats; an overflowing product is infinity (\<open>None\<close>), not an error.\<close>

definition float_mul :: "rat \<Rightarrow> rat \<Rightarrow> rat option" where
  "float_mul x y =
     (let r = round_double (x * y) in if double_overflow r then None else Some r)"

text \<open>\<^verbatim>\<open>int(x)\<close> on a float truncates towards zero and raises on infinity.\<close>

definition int_of_float :: "rat option \<Rightarrow> error + int" where
  "int_of_float x =
     (case x of
        None \<Rightarrow> Inl OverflowError
      | Some r \<Rightarrow> Inr (if 0 \<le> r then \<lfloor>r\<rfloor> else \<lceil>r\<rceil>))"

text \<open>\<^verbatim>\<open>int((max_dimension / width) * height)\<close>, lines 50 and 53.\<close>

definition scale_dim :: "int \<Rightarrow> int \<Rightarrow> int \<Rightarrow> error + int" where
  "scale_dim max_dimension width height =
     (case int_truediv max_dimension width of
        Inl e \<Rightarrow> Inl e
      | Inr r \<Rightarrow>
          (case float_of_int height of
             Inl e \<Rightarrow> Inl e
           | Inr f \<Rightarrow> int_of_float (float_mul r f)))"

text \<open>\<^verbatim>\<open>int(dim * 0.9)\<close>, line 74; the literal \<^verbatim>\<open>0.9\<close> is the binary64 number nearest to 9/10.\<close>

definition shrink_dim :: "int \<Rightarrow> error + int" where
  "shrink_dim d =
     (case float_of_int d of
        Inl e \<Rightarrow> Inl e
      | Inr f \<Rightarrow> int_of_float (float_mul f (round_double (9 / 10))))"

text \<open>
  \<^verbatim>\<open>round(a / 1024, 2)\<close>, lines 128 and 129: the quotient is rounded to two decimals, ties to
  even on its exact value, and the decimal is read back as a binary64 number.
\<close>

definition round2 :: "rat \<Rightarrow> rat" where
  "round2 x = round_double (of_int (round_half_even (x * 100)) / 100)"

definition size_kb :: "int \<Rightarrow> error + rat" where
  "size_kb n = (case int_truediv n 1024 of Inl e \<Rightarrow> Inl e | Inr r \<Rightarrow> Inr (round2 r))"


section \<open>The imaging library\<close>

text \<open>
  \<^verbatim>\<open>compress_image\<close> calls Pillow for decoding, colour conversion, resizing and JPEG
  encoding. The library is not part of the repository, so its operations are parameters
  of the model; each of them may raise. \<open>'img\<close> is the type of image objects.
\<close>

record 'img pil =
  Image_open :: "byte list \<Rightarrow> error + 'img"
  Image_mode :: "'img \<Rightarrow> string"
  Image_convert :: "'img \<Rightarrow> string \<Rightarrow> error + 'img"
  Image_size :: "'img \<Rightarrow> int \<times> int"
  Image_thumbnail :: "'img \<Rightarrow> int \<times> int \<Rightarrow> error + 'img"
  Image_save :: "'img \<Rightarrow> int \<Rightarrow> error + byte list"

text \<open>
  What Pillow documents for \<^verbatim>\<open>Image.thumbnail(size)\<close>: the image becomes "no larger than
  the given size".
\<close>

definition thumbnail_fits :: "'img pil \<Rightarrow> bool" where
  "thumbnail_fits P =
     (\<forall>im box im'. 0 \<le> fst box \<and> 0 \<le> snd box \<and> Image_thumbnail P im box = Inr im' \<longrightarrow>
        fst (Image_size P im') \<le> fst box \<and> snd (Image_size P im') \<le> snd box)"

text \<open>
  The size rule of \<^verbatim>\<open>Image.thumbnail\<close>. An image that fits the box is left as it is.
  Otherwise one side of the image is given the length of the box, the one that keeps the
  other side inside the box, and the other side is its proportional length rounded down or
  up, whichever keeps the aspect ratio nearer, and at least 1. \<open>rounded_side n num den\<close> says
  that \<open>n\<close> is such a rounding of \<open>num / den\<close>: at most one half below it, and at most
  \<open>n / (2 * n - 1)\<close> above it.
\<close>

definition rounded_side :: "int \<Rightarrow> int \<Rightarrow> int \<Rightarrow> bool" where
  "rounded_side n num den =
     (1 \<le> n \<and> 2 * (num - n * den) \<le> den \<and> (n * den - num) * (2 * n - 1) \<le> n * den)"

definition follows_size_rule :: "int \<times> int \<Rightarrow> int \<times> int \<Rightarrow> int \<times> int \<Rightarrow> bool" where
  "follows_size_rule old box new =
     (let (a, b) = old; (x, y) = box; (c, d) = new
      in if a \<le> x \<and> b \<le> y then (c, d) = (a, b)
         else if y * a \<le> x * b then d = y \<and> 1 \<le> d \<and> d < b \<and> rounded_side c (y * a) b
         else c = x \<and> 1 \<le> c \<and> c < a \<and> rounded_side d (x * b) a)"

definition thumbnail_rounds_aspect :: "'img pil \<Rightarrow> bool" where
  "thumbnail_rounds_aspect P =
     (\<forall>im box im'.
        1 \<le> fst (Image_size P im) \<and> 1 \<le> snd (Image_size P im) \<and>
        0 \<le> fst box \<and> 0 \<le> snd box \<and> Image_thumbnail P im box = Inr im' \<longrightarrow>
        follows_size_rule (Image_size P im) box (Image_size P im'))"

text \<open>
  The sides of \<open>final\<close> are in the proportion of the sides of \<open>original\<close> up to \<open>n\<close> pixels
  on the side that is the shorter one in \<open>original\<close>.
\<close>

definition aspect_within :: "int \<Rightarrow> int \<times> int \<Rightarrow> int \<times> int \<Rightarrow> bool" where
  "aspect_within n final original =
     (\<bar>fst final * snd original - snd final * fst original\<bar>
        \<le> n * max (fst original) (snd original))"


section \<open>\<^verbatim>\<open>compress_image\<close>\<close>

text \<open>
  The local variables of \<^verbatim>\<open>compress_image\<close>. \<open>new_dimensions\<close> is bound only when the branch of
  line 73 runs. \<open>saves\<close> is not a variable of the source: it records, in call order, every
  call of \<^verbatim>\<open>img.save\<close> as the size of the image saved and the quality passed.
\<close>

type_synonym save_log = "((int \<times> int) \<times> int) list"

record 'img locals =
  original_size :: int
  img :: 'img
  width :: int
  height :: int
  max_dimensions :: "int \<times> int"
  output_bytes :: "byte list"
  quality :: int
  new_dimensions :: "(int \<times> int) option"
  saves :: save_log

text \<open>A run either raises, with the calls of \<^verbatim>\<open>img.save\<close> made so far, or yields a value.\<close>

type_synonym 'a run = "(error \<times> save_log) + 'a"

definition and_then :: "'e + 'a \<Rightarrow> ('a \<Rightarrow> 'e + 'b) \<Rightarrow> 'e + 'b" where
  "and_then r f = (case r of Inl e \<Rightarrow> Inl e | Inr x \<Rightarrow> f x)"

definition raising :: "save_log \<Rightarrow> error + 'a \<Rightarrow> 'a run" where
  "raising calls r = (case r of Inl e \<Rightarrow> Inl (e, calls) | Inr x \<Rightarrow> Inr x)"

text \<open>\<^verbatim>\<open>output.tell()\<close> after a save into the emptied buffer.\<close>

definition tell :: "'img locals \<Rightarrow> int" where
  "tell s = int (length (output_bytes s))"

text \<open>
  \<^verbatim>\<open>img.save(output, format='JPEG', quality=q, optimize=True)\<close> into the buffer, which is
  empty at line 63 and emptied by \<^verbatim>\<open>seek(0); truncate(0)\<close> before every later save.
\<close>

definition save_jpeg :: "'img pil \<Rightarrow> int \<Rightarrow> 'img locals \<Rightarrow> 'img locals run" where
  "save_jpeg P q s =
     (let calls = saves s @ [(Image_size P (img s), q)]
      in case Image_save P (img s) q of
           Inl e \<Rightarrow> Inl (e, calls)
         | Inr bs \<Rightarrow> Inr (s\<lparr>output_bytes := bs, saves := calls\<rparr>))"

text \<open>Lines 38 to 44: read, open, convert to RGB.\<close>

definition open_rgb :: "'img pil \<Rightarrow> byte list \<Rightarrow> error + 'img" where
  "open_rgb P content =
     and_then (Image_open P content) (\<lambda>im.
       if Image_mode P im \<noteq> ''RGB'' then Image_convert P im ''RGB'' else Inr im)"

text \<open>Lines 47 to 55: the requested bounding box.\<close>

definition target_box :: "int \<Rightarrow> int \<Rightarrow> int \<Rightarrow> error + int \<times> int" where
  "target_box max_dimension w h =
     (if w \<ge> h
      then and_then (scale_dim max_dimension w h) (\<lambda>new_height. Inr (max_dimension, new_height))
      else and_then (scale_dim max_dimension h w) (\<lambda>new_width. Inr (new_width, max_dimension)))"

text \<open>Lines 38 to 63: everything up to and including the first save, at \<open>max_quality\<close>.\<close>

definition first_encode :: "'img pil \<Rightarrow> byte list \<Rightarrow> int \<Rightarrow> int \<Rightarrow> 'img locals run" where
  "first_encode P content max_dimension max_quality =
     and_then (raising [] (open_rgb P content)) (\<lambda>im.
       let (w, h) = Image_size P im
       in and_then (raising [] (target_box max_dimension w h)) (\<lambda>box.
            and_then (raising [] (Image_thumbnail P im box)) (\<lambda>im'.
              save_jpeg P max_quality
                \<lparr>original_size = int (length content), img = im', width = w, height = h,
                 max_dimensions = box, output_bytes = [], quality = max_quality,
                 new_dimensions = None, saves = []\<rparr>)))"

text \<open>Lines 66 to 70: the quality-reduction loop.\<close>

function reduce_quality :: "'img pil \<Rightarrow> int \<Rightarrow> 'img locals \<Rightarrow> 'img locals run" where
  "reduce_quality P min_quality s =
     (if tell s > 150 * 1024 \<and> quality s > min_quality
      then (case save_jpeg P (quality s - 5) (s\<lparr>quality := quality s - 5\<rparr>) of
              Inl e \<Rightarrow> Inl e
            | Inr s' \<Rightarrow> reduce_quality P min_quality s')
      else Inr s)"
  by pat_completeness auto
termination
  by (relation "measure (\<lambda>(P, min_quality, s). nat (quality s - min_quality))")
     (auto simp: save_jpeg_def Let_def split: sum.splits)

declare reduce_quality.simps [simp del]

text \<open>
  Lines 73 to 78: the dimension fallback. The new box is computed from \<open>max_dimensions\<close>, the
  box requested at line 55, and the save uses \<open>min_quality\<close>; \<open>quality\<close> is not assigned.
\<close>

definition shrink_dimensions :: "'img pil \<Rightarrow> int \<Rightarrow> 'img locals \<Rightarrow> 'img locals run" where
  "shrink_dimensions P min_quality s =
     (if tell s > 150 * 1024
      then and_then
             (raising (saves s)
                (and_then (shrink_dim (fst (max_dimensions s))) (\<lambda>a.
                   and_then (shrink_dim (snd (max_dimensions s))) (\<lambda>b. Inr (a, b)))))
             (\<lambda>nd. and_then (raising (saves s) (Image_thumbnail P (img s) nd)) (\<lambda>im'.
                save_jpeg P min_quality (s\<lparr>img := im', new_dimensions := Some nd\<rparr>)))
      else Inr s)"

text \<open>Lines 81 to 85: the quality boost.\<close>

definition boost_quality :: "'img pil \<Rightarrow> int \<Rightarrow> int \<Rightarrow> 'img locals \<Rightarrow> 'img locals run" where
  "boost_quality P target_size_kb max_quality s =
     (if tell s < target_size_kb * 1024 \<and> quality s < max_quality
      then let q = min (quality s + 10) max_quality
           in save_jpeg P q (s\<lparr>quality := q\<rparr>)
      else Inr s)"

text \<open>Lines 39 to 89 on the bytes read, returning the locals at line 89.\<close>

definition compress_image_run ::
  "'img pil \<Rightarrow> byte list \<Rightarrow> int \<Rightarrow> int \<Rightarrow> int \<Rightarrow> int \<Rightarrow> 'img locals run" where
  "compress_image_run P content max_dimension target_size_kb min_quality max_quality =
     and_then (first_encode P content max_dimension max_quality) (\<lambda>s1.
       and_then (reduce_quality P min_quality s1) (\<lambda>s2.
         and_then (shrink_dimensions P min_quality s2)
           (boost_quality P target_size_kb max_quality)))"

text \<open>
  An \<^verbatim>\<open>UploadFile\<close>: a name and a byte stream with a read position. \<^verbatim>\<open>read()\<close> returns
  the bytes from the position to the end and leaves the position at the end.
\<close>

record upload_file =
  filename :: string
  file_data :: "byte list"
  file_pos :: nat

definition read :: "upload_file \<Rightarrow> byte list \<times> upload_file" where
  "read f =
     (drop (file_pos f) (file_data f),
      f\<lparr>file_pos := max (file_pos f) (length (file_data f))\<rparr>)"

text \<open>
  \<^verbatim>\<open>compress_image\<close>: line 38 reads the upload; line 89 is
  \<^verbatim>\<open>return output, img.size, original_size, compressed_size\<close>, where \<open>compressed_size\<close> is
  \<^verbatim>\<open>output.tell()\<close> (line 87). The upload, whose position has moved, is returned beside
  the result.
\<close>

type_synonym compressed = "byte list \<times> (int \<times> int) \<times> int \<times> int"

definition compress_image ::
  "'img pil \<Rightarrow> upload_file \<Rightarrow> int \<Rightarrow> int \<Rightarrow> int \<Rightarrow> int \<Rightarrow>
     (error + compressed) \<times> upload_file" where
  "compress_image P input_image max_dimension target_size_kb min_quality max_quality =
     (let (content, input_image') = read input_image
      in (case compress_image_run P content max_dimension target_size_kb
                 min_quality max_quality of
            Inl (e, calls) \<Rightarrow> Inl e
          | Inr s \<Rightarrow> Inr (output_bytes s, Image_size P (img s), original_size s, tell s),
          input_image'))"

text \<open>The calls of \<^verbatim>\<open>img.save\<close> a run made, whether it returned or raised.\<close>

definition save_calls :: "'img locals run \<Rightarrow> save_log" where
  "save_calls r = (case r of Inl (e, calls) \<Rightarrow> calls | Inr s \<Rightarrow> saves s)"

definition qualities :: "'img locals run \<Rightarrow> int list" where
  "qualities r = map snd (save_calls r)"


section \<open>\<^verbatim>\<open>upload_image\<close>\<close>

text \<open>
  The temporary directory and the MongoDB collection are the state of the service. The
  identifier drawn by \<^verbatim>\<open>uuid.uuid4()\<close> and the time read by \<^verbatim>\<open>datetime.utcnow()\<close> are inputs
  of the model. Writing the file and inserting the record are taken to succeed.
\<close>

record image_info =
  info_image_id :: string
  info_filename :: string
  info_original_size_kb :: rat
  info_compressed_size_kb :: rat
  info_new_dimensions :: string
  info_temp_file_path :: string
  info_timestamp :: string

record world =
  files :: "string \<rightharpoonup> byte list"
  collection :: "image_info list"

record response =
  resp_image_id :: string
  resp_filename :: string
  resp_original_size_kb :: rat
  resp_compressed_size_kb :: rat
  resp_new_dimensions :: string
  resp_message :: string

text \<open>
  \<^verbatim>\<open>str.lower\<close> restricted to ASCII letters: the three suffixes tested at line 99 are
  ASCII, and no other character lowers to one of theirs.
\<close>

definition lower_char :: "char \<Rightarrow> char" where
  "lower_char c =
     (let n = (of_char c :: nat) in if 65 \<le> n \<and> n \<le> 90 then char_of (n + 32) else c)"

definition lower :: "string \<Rightarrow> string" where
  "lower s = map lower_char s"

definition endswith :: "string \<Rightarrow> string \<Rightarrow> bool" where
  "endswith s suf = (length suf \<le> length s \<and> drop (length s - length suf) s = suf)"

fun str_nat :: "nat \<Rightarrow> string" where
  "str_nat n =
     (if n < 10 then [char_of (48 + n)] else str_nat (n div 10) @ [char_of (48 + n mod 10)])"

declare str_nat.simps [simp del]

definition str_int :: "int \<Rightarrow> string" where
  "str_int i = (if i < 0 then CHR ''-'' # str_nat (nat (- i)) else str_nat (nat i))"

definition upload_image ::
  "'img pil \<Rightarrow> string \<Rightarrow> string \<Rightarrow> world \<Rightarrow> upload_file \<Rightarrow> int \<Rightarrow> int \<Rightarrow>
     (error + response) \<times> world" where
  "upload_image P uuid4 utcnow w file max_dimension target_size_kb =
     (if \<not> (endswith (lower (filename file)) ''.png'' \<or>
             endswith (lower (filename file)) ''.jpg'' \<or>
             endswith (lower (filename file)) ''.jpeg'')
      then (Inl (HTTPException 400 ''Unsupported file format''), w)
      else if max_dimension \<le> 0 \<or> target_size_kb \<le> 0
      then (Inl (HTTPException 400 ''Invalid parameters''), w)
      else
        (case fst (compress_image P file max_dimension target_size_kb 75 90) of
           Inl e \<Rightarrow> (Inl e, w)
         | Inr (compressed_image, new_dims, orig_size, compressed_size) \<Rightarrow>
             let image_id = uuid4;
                 temp_file_path = ''temp_images/'' @ image_id @ ''.jpg'';
                 w1 = w\<lparr>files := (files w)(temp_file_path \<mapsto> compressed_image)\<rparr>
             in (case size_kb orig_size of
                   Inl e \<Rightarrow> (Inl e, w1)
                 | Inr okb \<Rightarrow>
                     (case size_kb compressed_size of
                        Inl e \<Rightarrow> (Inl e, w1)
                      | Inr ckb \<Rightarrow>
                          let dims = str_int (fst new_dims) @ ''x'' @ str_int (snd new_dims);
                              info = \<lparr>info_image_id = image_id, info_filename = filename file,
                                      info_original_size_kb = okb,
                                      info_compressed_size_kb = ckb,
                                      info_new_dimensions = dims,
                                      info_temp_file_path = temp_file_path,
                                      info_timestamp = utcnow\<rparr>
                          in (Inr \<lparr>resp_image_id = image_id, resp_filename = filename file,
                                   resp_original_size_kb = okb,
                                   resp_compressed_size_kb = ckb,
                                   resp_new_dimensions = dims,
                                   resp_message = ''Image compressed and stored successfully''\<rparr>,
                              w1\<lparr>collection := collection w1 @ [info]\<rparr>)))))"


section \<open>A reference library for concrete runs\<close>

text \<open>
  An instance of the library interface on which runs can be evaluated. An image is its
  mode and size. A file is a five-byte header (a mode tag, then width and height as
  16-bit big-endian numbers) followed by any payload; an opened image has a positive
  size, and neither an image without one nor a resize to an empty size is accepted. The thumbnail size follows the rule of
  Pillow's \<^verbatim>\<open>Image.thumbnail\<close>, evaluated in exact arithmetic. The encoder
  writes \<open>w * h * q div 100\<close> bytes for an image of \<open>w\<close> by \<open>h\<close> pixels at quality \<open>q\<close>.
\<close>

record raster =
  r_mode :: string
  r_size :: "int \<times> int"

definition ref_open :: "byte list \<Rightarrow> error + raster" where
  "ref_open content =
     (case content of
        m # wh # wl # hh # hl # payload \<Rightarrow>
          (let w = 256 * uint wh + uint wl; h = 256 * uint hh + uint hl
           in if 1 \<le> w \<and> 1 \<le> h
              then Inr \<lparr>r_mode = (if m = 0 then ''RGB'' else ''RGBA''), r_size = (w, h)\<rparr>
              else Inl (CodecError ''cannot identify image file''))
      | _ \<Rightarrow> Inl (CodecError ''cannot identify image file''))"

definition round_aspect :: "rat \<Rightarrow> (int \<Rightarrow> rat) \<Rightarrow> int" where
  "round_aspect number key =
     max (if key \<lceil>number\<rceil> < key \<lfloor>number\<rfloor> then \<lceil>number\<rceil> else \<lfloor>number\<rfloor>) 1"

definition thumbnail_size :: "int \<times> int \<Rightarrow> int \<times> int \<Rightarrow> error + int \<times> int" where
  "thumbnail_size sz box =
     (let (w, h) = sz; (x, y) = box
      in if x \<ge> w \<and> y \<ge> h then Inr (w, h)
         else if h = 0 \<or> y = 0 then Inl ZeroDivisionError
         else let aspect = (of_int w / of_int h :: rat)
              in if of_int x / of_int y \<ge> aspect
                 then Inr (round_aspect (of_int y * aspect)
                             (\<lambda>n. \<bar>aspect - of_int n / of_int y\<bar>), y)
                 else Inr (x, round_aspect (of_int x / aspect)
                                (\<lambda>n. if n = 0 then 0 else \<bar>aspect - of_int x / of_int n\<bar>)))"

definition ref_thumbnail :: "raster \<Rightarrow> int \<times> int \<Rightarrow> error + raster" where
  "ref_thumbnail im box =
     (if fst (r_size im) < 1 \<or> snd (r_size im) < 1
      then Inl (CodecError ''height and width must be > 0'')
      else case thumbnail_size (r_size im) box of
             Inl e \<Rightarrow> Inl e
           | Inr sz \<Rightarrow>
               if fst sz < 1 \<or> snd sz < 1
               then Inl (CodecError ''height and width must be > 0'')
               else Inr (im\<lparr>r_size := sz\<rparr>))"

definition ref_save :: "raster \<Rightarrow> int \<Rightarrow> error + byte list" where
  "ref_save im q =
     (let (w, h) = r_size im
      in if w \<le> 0 \<or> h \<le> 0 then Inl (CodecError ''cannot write empty image as JPEG'')
         else Inr (replicate (nat (w * h * q div 100)) 0))"

definition ref_pil :: "raster pil" where
  "ref_pil =
     \<lparr>Image_open = ref_open,
      Image_mode = r_mode,
      Image_convert = (\<lambda>im m. Inr (im\<lparr>r_mode := m\<rparr>)),
      Image_size = r_size,
      Image_thumbnail = ref_thumbnail,
      Image_save = ref_save\<rparr>"

text \<open>An RGB file of the given size, with a three-byte payload, and a fresh upload of it.\<close>

definition rgb_file :: "int \<Rightarrow> int \<Rightarrow> byte list" where
  "rgb_file w h =
     [0, word_of_int (w div 256), word_of_int (w mod 256),
      word_of_int (h div 256), word_of_int (h mod 256), 1, 2, 3]"

definition upload :: "string \<Rightarrow> byte list \<Rightarrow> upload_file" where
  "upload name bs = \<lparr>filename = name, file_data = bs, file_pos = 0\<rparr>"


section \<open>Rounding to binary64\<close>

lemma floor_rat_numeral: "\<lfloor>(numeral a :: rat) / numeral b\<rfloor> = numeral a div numeral b"
  using floor_divide_of_int_eq [of "numeral a" "numeral b", where ?'a = rat] by simp

lemma ceiling_rat_numeral:
  "\<lceil>(numeral a :: rat) / numeral b\<rceil> = - (- numeral a div numeral b)"
  using ceiling_divide_eq_div [of "numeral a" "numeral b", where ?'a = rat] by simp

lemmas float_eval = scale_dim_def shrink_dim_def int_truediv_def float_of_int_def float_mul_def
  int_of_float_def round_double_def double_overflow_def binade_def pow2_def power_int_minus
  round_half_even_def Let_def compute_bitlen floor_rat_numeral ceiling_rat_numeral

lemma pow2_pos [simp]: "0 < pow2 k"
  by (simp add: pow2_def)

lemma pow2_add: "pow2 (a + b) = pow2 a * pow2 b"
  by (simp add: pow2_def power_int_add)

lemma pow2_nat: "0 \<le> k \<Longrightarrow> pow2 k = 2 ^ nat k"
  by (simp add: pow2_def power_int_nonneg_exp)

lemma pow2_mono: "a \<le> b \<Longrightarrow> pow2 a \<le> pow2 b"
  by (simp add: pow2_def power_int_increasing)

lemma pow2_less_exp: "pow2 a < pow2 b \<Longrightarrow> a < b"
  using pow2_mono [of b a] by (cases "a < b") auto

lemma pow2_neg: "pow2 (- k) = 1 / pow2 k"
  by (simp add: pow2_def power_int_minus_divide)

lemma rhe_ge: "of_int n \<le> y \<Longrightarrow> n \<le> round_half_even y"
  by (auto simp: round_half_even_def Let_def le_floor_iff intro: add_increasing2)

lemma rhe_le:
  assumes "y \<le> of_int n"
  shows "round_half_even y \<le> n"
proof -
  have f: "\<lfloor>y\<rfloor> \<le> n" using assms by (simp add: floor_le_iff)
  have "\<lfloor>y\<rfloor> + 1 \<le> n" if "1 / 2 \<le> y - of_int \<lfloor>y\<rfloor>"
  proof -
    from that have "of_int \<lfloor>y\<rfloor> < y" by simp
    with assms have "(of_int \<lfloor>y\<rfloor> :: rat) < of_int n" by simp
    then show ?thesis by simp
  qed
  with f show ?thesis
    by (auto simp: round_half_even_def Let_def)
qed

lemma rhe_err: "of_int (round_half_even y) \<le> y + 1 / 2"
proof -
  define f where "f = \<lfloor>y\<rfloor>"
  have "of_int f \<le> y" unfolding f_def by simp
  then show ?thesis
    unfolding round_half_even_def Let_def f_def [symmetric] by auto
qed

lemma binade_bounds:
  assumes "x \<noteq> 0"
  shows "pow2 (binade x) \<le> \<bar>x\<bar>" and "\<bar>x\<bar> < pow2 (binade x + 1)"
proof -
  define a where "a = \<bar>x\<bar>"
  have a: "0 < a" using assms by (simp add: a_def)
  have "pow2 (binade x) \<le> a \<and> a < pow2 (binade x + 1)"
  proof (cases "1 \<le> a")
    case True
    define n where "n = \<lfloor>a\<rfloor>"
    have n: "0 < n" using True by (simp add: n_def)
    have b: "binade x = bitlen n - 1"
      using True by (simp add: binade_def a_def [symmetric] n_def)
    have bl: "1 \<le> bitlen n" using n by (simp add: bitlen_alt_def)
    from bitlen_bounds [OF n]
    have lo: "2 ^ nat (bitlen n - 1) \<le> n" and hi: "n < 2 ^ nat (bitlen n)" by simp_all
    have "pow2 (bitlen n - 1) = of_int (2 ^ nat (bitlen n - 1))"
      using bl by (simp add: pow2_nat)
    also have "\<dots> \<le> of_int n" using lo by (simp only: of_int_le_iff)
    also have "\<dots> \<le> a" by (simp add: n_def)
    finally have 1: "pow2 (bitlen n - 1) \<le> a" .
    have "a < of_int (n + 1)" using floor_correct [of a] by (simp add: n_def)
    also have "\<dots> \<le> of_int (2 ^ nat (bitlen n))" using hi by (simp only: of_int_le_iff)
    also have "\<dots> = pow2 (bitlen n)" using bl by (simp add: pow2_nat)
    finally have 2: "a < pow2 (bitlen n)" .
    from 1 2 show ?thesis by (simp add: b)
  next
    case False
    define y where "y = 1 / a"
    define n where "n = \<lceil>y\<rceil>"
    have y: "1 < y" using False a by (simp add: y_def)
    have n: "0 < n - 1" using y by (simp add: n_def less_ceiling_iff)
    define c where "c = bitlen (n - 1)"
    have b: "binade x = - c"
      using False by (simp add: binade_def a_def [symmetric] n_def y_def c_def)
    have bl: "1 \<le> c" using n by (simp add: bitlen_alt_def c_def)
    from bitlen_bounds [OF n]
    have lo: "2 ^ nat (c - 1) \<le> n - 1" and hi: "n - 1 < 2 ^ nat c" by (simp_all add: c_def)
    have "y \<le> of_int n" by (simp add: n_def)
    also have "\<dots> \<le> of_int (2 ^ nat c)" using hi by (simp only: of_int_le_iff)
    also have "\<dots> = pow2 c" using bl by (simp add: pow2_nat)
    finally have "y \<le> pow2 c" .
    then have 1: "pow2 (- c) \<le> a"
      using a by (simp add: pow2_neg y_def field_simps)
    have "pow2 (c - 1) = of_int (2 ^ nat (c - 1))" using bl by (simp add: pow2_nat)
    also have "\<dots> \<le> of_int (n - 1)" using lo by (simp only: of_int_le_iff)
    also have "\<dots> < y" unfolding n_def using ceiling_correct [of y] by simp
    finally have "pow2 (c - 1) < y" .
    then have "a < 1 / pow2 (c - 1)"
      using a by (simp add: y_def field_simps)
    then have 2: "a < pow2 (- c + 1)"
      using pow2_neg [of "c - 1"] by simp
    from 1 2 show ?thesis by (simp add: b)
  qed
  then show "pow2 (binade x) \<le> \<bar>x\<bar>" and "\<bar>x\<bar> < pow2 (binade x + 1)"
    by (simp_all add: a_def)
qed

lemma round_double_pos_eq:
  assumes "0 < x"
  shows "round_double x =
           of_int (round_half_even (x / pow2 (max (binade x) (- 1022) - 52)))
             * pow2 (max (binade x) (- 1022) - 52)"
  using assms by (simp add: round_double_def Let_def)

lemma dyadic_on_grid:
  fixes n :: int and k :: nat
  assumes "e \<le> 52 - int k"
  shows "of_int n / 2 ^ k = of_int (n * 2 ^ nat (52 - int k - e)) * pow2 (e - 52)"
proof -
  have "pow2 (int k) * (pow2 (52 - int k - e) * pow2 (e - 52)) = pow2 0"
    by (simp add: pow2_add [symmetric])
  moreover have "pow2 (52 - int k - e) = 2 ^ nat (52 - int k - e)"
    using assms by (simp add: pow2_nat)
  moreover have "pow2 (int k) = 2 ^ k" by (simp add: pow2_nat)
  moreover have "pow2 0 = 1" by (simp add: pow2_def)
  ultimately have "(2::rat) ^ k * (2 ^ nat (52 - int k - e) * pow2 (e - 52)) = 1"
    by simp
  then have "(2 ^ nat (52 - int k - e) * pow2 (e - 52) :: rat) = 1 / 2 ^ k"
    by (simp add: field_simps)
  then have "of_int n * (2 ^ nat (52 - int k - e) * pow2 (e - 52)) = of_int n * (1 / 2 ^ k)"
    by (rule arg_cong)
  then show ?thesis by (simp add: mult.assoc)
qed

lemma pow2_52_grid: "pow2 e = 2 ^ 52 * pow2 (e - 52)"
proof -
  have "pow2 e = pow2 (52 + (e - 52))" by simp
  also have "\<dots> = pow2 52 * pow2 (e - 52)" by (rule pow2_add)
  finally show ?thesis by (simp add: pow2_nat)
qed

lemma round_double_ge:
  fixes n :: int and k :: nat
  assumes n: "0 < n" "n < 2 ^ 53" and k: "k \<le> 52" and x: "of_int n / 2 ^ k \<le> x"
  shows "of_int n / 2 ^ k \<le> round_double x"
proof -
  define c :: rat where "c = of_int n / 2 ^ k"
  have c_pos: "0 < c" using n by (simp add: c_def)
  have x_pos: "0 < x" using c_pos x by (simp add: c_def)
  define e where "e = binade x"
  have lo: "pow2 e \<le> x" and hi: "x < pow2 (e + 1)"
    using binade_bounds [of x] x_pos by (simp_all add: e_def)
  have "1 / 2 ^ k \<le> c" using n by (simp add: c_def field_simps)
  moreover have "pow2 (- int k) = 1 / 2 ^ k" by (simp add: pow2_neg pow2_nat)
  ultimately have "pow2 (- int k) < pow2 (e + 1)" using x hi by (simp add: c_def)
  then have ek: "- int k \<le> e" using pow2_less_exp by fastforce
  then have m: "max e (- 1022) = e" using k by simp
  define u where "u = pow2 (e - 52)"
  have u: "0 < u" by (simp add: u_def)
  have rd: "round_double x = of_int (round_half_even (x / u)) * u"
    using round_double_pos_eq [OF x_pos] by (simp add: e_def [symmetric] m u_def)
  show ?thesis
  proof (cases "e \<le> 52 - int k")
    case True
    define N where "N = n * 2 ^ nat (52 - int k - e)"
    have c: "c = of_int N * u"
      unfolding c_def N_def u_def by (rule dyadic_on_grid [OF True])
    then have "of_int N \<le> x / u" using x u by (simp add: c_def field_simps)
    then have "N \<le> round_half_even (x / u)" by (rule rhe_ge)
    then have "of_int N * u \<le> of_int (round_half_even (x / u)) * u"
      using u by simp
    then show ?thesis using c rd by (simp add: c_def)
  next
    case False
    have "of_int (2 ^ 52) \<le> x / u"
      using lo u pow2_52_grid [of e] by (simp add: u_def field_simps)
    then have "2 ^ 52 \<le> round_half_even (x / u)" by (rule rhe_ge)
    then have "of_int (2 ^ 52) * u \<le> of_int (round_half_even (x / u)) * u"
      using u by (simp only: mult_le_cancel_right_pos of_int_le_iff)
    then have "pow2 e \<le> round_double x"
      using pow2_52_grid [of e] by (simp add: rd u_def)
    moreover have "pow2 (53 - int k) \<le> pow2 e" using False by (intro pow2_mono) simp
    moreover have "pow2 (53 - int k) = 2 ^ 53 / 2 ^ k"
      using pow2_add [of 53 "- int k"] by (simp add: pow2_neg pow2_nat)
    moreover have "c < 2 ^ 53 / 2 ^ k"
      using n by (simp add: c_def divide_strict_right_mono)
    ultimately show ?thesis by (simp add: c_def)
  qed
qed

lemma round_double_le:
  fixes n :: int and k :: nat
  assumes x_pos: "0 < x" and x: "x \<le> of_int n / 2 ^ k" and n: "n < 2 ^ 53" and k: "k \<le> 52"
  shows "round_double x \<le> of_int n / 2 ^ k"
proof -
  define c :: rat where "c = of_int n / 2 ^ k"
  define e where "e = max (binade x) (- 1022)"
  define u where "u = pow2 (e - 52)"
  have u: "0 < u" by (simp add: u_def)
  have rd: "round_double x = of_int (round_half_even (x / u)) * u"
    using round_double_pos_eq [OF x_pos] by (simp add: e_def u_def)
  have grid: "e \<le> 52 - int k"
  proof (rule ccontr)
    assume "\<not> e \<le> 52 - int k"
    then have big: "53 - int k \<le> e" by simp
    then have "e = binade x" using k by (simp add: e_def max_def split: if_splits)
    then have "pow2 e \<le> x" using binade_bounds(1) [of x] x_pos by simp
    moreover have "pow2 (53 - int k) \<le> pow2 e" using big by (rule pow2_mono)
    moreover have "pow2 (53 - int k) = 2 ^ 53 / 2 ^ k"
      using pow2_add [of 53 "- int k"] by (simp add: pow2_neg pow2_nat)
    moreover have "c < 2 ^ 53 / 2 ^ k"
      using n by (simp add: c_def divide_strict_right_mono)
    ultimately show False using x by (simp add: c_def)
  qed
  define N where "N = n * 2 ^ nat (52 - int k - e)"
  have c: "c = of_int N * u"
    unfolding c_def N_def u_def by (rule dyadic_on_grid [OF grid])
  then have "x / u \<le> of_int N" using x u by (simp add: c_def field_simps)
  then have "round_half_even (x / u) \<le> N" by (rule rhe_le)
  then have "of_int (round_half_even (x / u)) * u \<le> of_int N * u"
    using u by simp
  then show ?thesis using c rd by (simp add: c_def)
qed

lemma round_double_nonneg:
  assumes "0 \<le> x"
  shows "0 \<le> round_double x"
proof (cases "x = 0")
  case True
  then show ?thesis by (simp add: round_double_def)
next
  case False
  with assms have x_pos: "0 < x" by simp
  define u where "u = pow2 (max (binade x) (- 1022) - 52)"
  have u: "0 < u" by (simp add: u_def)
  have "of_int 0 \<le> x / u" using x_pos u by simp
  then have "0 \<le> round_half_even (x / u)" by (rule rhe_ge)
  then have "0 \<le> of_int (round_half_even (x / u)) * u"
    using u by (simp add: mult_nonneg_nonneg)
  then show ?thesis
    using round_double_pos_eq [OF x_pos] by (simp add: u_def)
qed

lemma round_double_int:
  assumes "0 \<le> n" "n < 2 ^ 53"
  shows "round_double (of_int n) = of_int n"
proof (cases "n = 0")
  case True
  then show ?thesis by (simp add: round_double_def)
next
  case False
  with assms have n: "0 < n" by simp
  have "of_int n / 2 ^ 0 \<le> round_double (of_int n)"
    by (rule round_double_ge [OF n assms(2)]) simp_all
  moreover have "round_double (of_int n) \<le> of_int n / 2 ^ 0"
    by (rule round_double_le [OF _ _ assms(2)]) (use n in simp_all)
  ultimately show ?thesis by simp
qed

lemma round_double_error:
  assumes "pow2 (- 1022) \<le> x"
  shows "round_double x \<le> x + x / 2 ^ 53"
proof -
  have x_pos: "0 < x" using assms pow2_pos [of "- 1022"] by linarith
  define e where "e = binade x"
  have lo: "pow2 e \<le> x" and hi: "x < pow2 (e + 1)"
    using binade_bounds [of x] x_pos by (simp_all add: e_def)
  have "pow2 (- 1022) < pow2 (e + 1)" using assms hi by simp
  then have "- 1022 < e + 1" by (rule pow2_less_exp)
  then have m: "max e (- 1022) = e" by simp
  define u where "u = pow2 (e - 52)"
  have u: "0 < u" by (simp add: u_def)
  have rd: "round_double x = of_int (round_half_even (x / u)) * u"
    using round_double_pos_eq [OF x_pos] by (simp add: e_def [symmetric] m u_def)
  have "of_int (round_half_even (x / u)) * u \<le> (x / u + 1 / 2) * u"
    using rhe_err [of "x / u"] u by (simp only: mult_le_cancel_right_pos)
  also have "\<dots> = x + u / 2" using u by (simp add: field_simps)
  also have "u / 2 \<le> x / 2 ^ 53"
    using lo pow2_52_grid [of e] by (simp add: u_def field_simps)
  finally show ?thesis by (simp add: rd)
qed

lemma scale_dim_Inr:
  assumes "scale_dim m w h = Inr r"
  shows "w \<noteq> 0"
    and "r = (let p = round_double (round_double (of_int m / of_int w) * round_double (of_int h))
              in if 0 \<le> p then \<lfloor>p\<rfloor> else \<lceil>p\<rceil>)"
  using assms
  by (auto simp: scale_dim_def int_truediv_def float_of_int_def float_mul_def int_of_float_def
        Let_def split: if_splits sum.splits option.splits)

text \<open>An image that fits the requested longer edge is given a box it fits.\<close>

lemma scale_dim_ge:
  assumes w: "1 \<le> w" "w \<le> m" and h: "1 \<le> h" "h < 2 ^ 53"
    and r: "scale_dim m w h = Inr r"
  shows "h \<le> r"
proof -
  define q where "q = round_double (of_int m / of_int w)"
  define p where "p = round_double (q * round_double (of_int h))"
  have "of_int 1 / 2 ^ 0 \<le> (of_int m / of_int w :: rat)" using w by simp
  then have "of_int 1 / 2 ^ 0 \<le> q"
    unfolding q_def by (intro round_double_ge) simp_all
  then have q: "1 \<le> q" by simp
  have f: "round_double (of_int h) = of_int h"
    using h by (intro round_double_int) simp_all
  have "of_int h / 2 ^ 0 \<le> q * of_int h"
    using q h by (simp add: mult_le_cancel_right1)
  then have "of_int h / 2 ^ 0 \<le> p"
    unfolding p_def f using h by (intro round_double_ge) simp_all
  then have p: "of_int h \<le> p" by simp
  then have "0 \<le> p" using h by (meson of_int_0_le_iff order_trans zero_le_one order.trans)
  then have "r = \<lfloor>p\<rfloor>"
    using scale_dim_Inr(2) [OF r] by (simp add: p_def q_def Let_def)
  then show ?thesis using p by (simp add: le_floor_iff)
qed

text \<open>The shorter edge of the requested box never exceeds the longer one.\<close>

lemma scale_dim_le:
  assumes h: "1 \<le> h" "h \<le> w" and w: "w < 2 ^ 53" and m: "1 \<le> m" "m < 2 ^ 52"
    and r: "scale_dim m w h = Inr r"
  shows "0 \<le> r" and "r \<le> m"
proof -
  define t :: rat where "t = of_int m / of_int w"
  define q where "q = round_double t"
  define x where "x = q * of_int h"
  define p where "p = round_double x"
  have w_pos: "0 < w" using h by simp
  have t_pos: "0 < t" using m w_pos by (simp add: t_def)
  have "pow2 (- 1022) \<le> pow2 (- 53)" by (rule pow2_mono) simp
  also have "pow2 (- 53) = 1 / 2 ^ 53" by (simp add: pow2_neg pow2_nat)
  also have "\<dots> \<le> 1 / of_int w"
    using w w_pos by (intro divide_left_mono) (simp_all add: of_int_less_numeral_power_cancel_iff less_imp_le)
  also have "\<dots> \<le> t"
    using m w_pos by (simp add: t_def divide_right_mono)
  finally have "pow2 (- 1022) \<le> t" .
  then have q_hi: "q \<le> t + t / 2 ^ 53" unfolding q_def by (rule round_double_error)
  have q_lo: "0 \<le> q" unfolding q_def using t_pos by (intro round_double_nonneg) simp
  have x_lo: "0 \<le> x" using q_lo h by (simp add: x_def)
  have th: "t * of_int h \<le> of_int m"
  proof -
    have "t * of_int h = of_int m * (of_int h / of_int w)" by (simp add: t_def)
    also have "\<dots> \<le> of_int m * 1"
      using h w_pos m by (intro mult_left_mono) simp_all
    finally show ?thesis by simp
  qed
  have "x \<le> (t + t / 2 ^ 53) * of_int h"
    unfolding x_def using q_hi h by (intro mult_right_mono) simp_all
  also have "\<dots> = t * of_int h + t * of_int h / 2 ^ 53" by (simp add: field_simps)
  also have "\<dots> \<le> of_int m + of_int m / 2 ^ 53"
    using th by (intro add_mono divide_right_mono) simp_all
  also have "(of_int m :: rat) / 2 ^ 53 \<le> 1 / 2"
  proof -
    have "(of_int m :: rat) \<le> 2 ^ 52" using m by (simp add: of_int_le_numeral_power_cancel_iff)
    then show ?thesis by simp
  qed
  finally have x_hi: "x \<le> of_int (2 * m + 1) / 2 ^ 1" by simp
  have f: "round_double (of_int h) = of_int h"
    using h w by (intro round_double_int) simp_all
  have p_lo: "0 \<le> p" unfolding p_def using x_lo by (rule round_double_nonneg)
  have p_hi: "p \<le> of_int (2 * m + 1) / 2 ^ 1"
  proof (cases "x = 0")
    case True
    then show ?thesis using m by (simp add: p_def round_double_def)
  next
    case False
    with x_lo have "0 < x" by simp
    then show ?thesis
      unfolding p_def using x_hi m by (intro round_double_le) simp_all
  qed
  have "r = \<lfloor>p\<rfloor>"
    using scale_dim_Inr(2) [OF r] p_lo by (simp add: p_def x_def q_def t_def f Let_def)
  moreover have "p < of_int m + 1" using p_hi by simp
  ultimately show "0 \<le> r" and "r \<le> m"
    using p_lo by (simp_all add: floor_le_iff)
qed

lemma double_point_nine: "round_double (9 / 10) = 8106479329266893 / 9007199254740992"
  by (simp add: float_eval)

text \<open>\<^verbatim>\<open>int(dim * 0.9)\<close> is nine tenths of \<open>dim\<close> rounded down.\<close>

lemma shrink_dim_eq:
  assumes d: "0 \<le> d" "d < 2 ^ 49"
  shows "shrink_dim d = Inr (9 * d div 10)"
proof -
  define k where "k = 9 * d div 10"
  define x :: rat where "x = of_int d * (8106479329266893 / 9007199254740992)"
  define p where "p = round_double x"
  have k_lo: "0 \<le> k" and k_d: "10 * k \<le> 9 * d" "9 * d \<le> 10 * k + 9" and k_hi: "k < 2 ^ 49"
    using d by (simp_all add: k_def)
  have dr: "(of_int d :: rat) < 2 ^ 49" using d by (simp add: of_int_less_numeral_power_cancel_iff)
  have d0: "(0 :: rat) \<le> of_int d" using d by simp
  have f: "round_double (of_int d) = of_int d"
    using d by (intro round_double_int) simp_all
  have x_lo: "of_int k \<le> x"
  proof -
    have "(of_int (10 * k) :: rat) \<le> of_int (9 * d)" using k_d by (simp only: of_int_le_iff)
    then have "(of_int k :: rat) \<le> of_int d * (9 / 10)" by simp
    also have "\<dots> \<le> x" unfolding x_def using d0 by (intro mult_left_mono) simp_all
    finally show ?thesis .
  qed
  have x_hi: "x \<le> of_int (16 * k + 15) / 2 ^ 4"
  proof -
    have "(of_int (9 * d) :: rat) \<le> of_int (10 * k + 9)" using k_d by (simp only: of_int_le_iff)
    then have "(of_int d :: rat) * (9 / 10) \<le> of_int k + 9 / 10" by simp
    moreover have "x = of_int d * (9 / 10) + of_int d / (5 * 2 ^ 53)"
      by (simp add: x_def field_simps)
    moreover have "(of_int d :: rat) / (5 * 2 ^ 53) \<le> 1 / 80" using dr by simp
    ultimately have "x \<le> of_int k + 9 / 10 + 1 / 80" by linarith
    then show ?thesis by simp
  qed
  have x0: "0 \<le> x" using x_lo k_lo by (meson of_int_0_le_iff order_trans)
  have p_lo: "of_int k \<le> p"
  proof (cases "k = 0")
    case True
    then show ?thesis using round_double_nonneg [OF x0] by (simp add: p_def)
  next
    case False
    with k_lo have "0 < k" by simp
    moreover have "k < 2 ^ 53" using k_hi by simp
    moreover have "of_int k / 2 ^ 0 \<le> x" using x_lo by simp
    ultimately have "of_int k / 2 ^ 0 \<le> round_double x" by (intro round_double_ge) simp_all
    then show ?thesis by (simp add: p_def)
  qed
  have p_hi: "p \<le> of_int (16 * k + 15) / 2 ^ 4"
  proof (cases "x = 0")
    case True
    then show ?thesis using k_lo by (simp add: p_def round_double_def)
  next
    case False
    with x0 have "0 < x" by simp
    moreover have "16 * k + 15 < 2 ^ 53" using k_hi by simp
    ultimately show ?thesis unfolding p_def using x_hi by (intro round_double_le) simp_all
  qed
  have p0: "0 \<le> p" using p_lo k_lo by (meson of_int_0_le_iff order_trans)
  have fl: "\<lfloor>p\<rfloor> = k"
  proof (rule floor_unique)
    show "of_int k \<le> p" by (rule p_lo)
    show "p < of_int k + 1" using p_hi by simp
  qed
  have kr: "(of_int k :: rat) < 2 ^ 49" using k_hi by (simp add: of_int_less_numeral_power_cancel_iff)
  have "p < 2 ^ 1024" using p_hi kr by simp
  then have no_p: "\<not> double_overflow p"
    using p0 by (simp add: double_overflow_def pow2_nat)
  have "(of_int d :: rat) < 2 ^ 1024" using dr by simp
  then have no_d: "\<not> double_overflow (of_int d)"
    using d0 by (simp add: double_overflow_def pow2_nat)
  show ?thesis
    using no_p no_d p0 fl
    by (simp add: shrink_dim_def float_of_int_def float_mul_def int_of_float_def f
          double_point_nine p_def x_def k_def)
qed


lemma rhe_err_lo: "y - 1 / 2 \<le> of_int (round_half_even y)"
proof -
  define f where "f = \<lfloor>y\<rfloor>"
  have "y < of_int f + 1" unfolding f_def by linarith
  then show ?thesis
    unfolding round_half_even_def Let_def f_def [symmetric] by auto
qed

lemma round_double_error_lo:
  assumes "pow2 (- 1022) \<le> x"
  shows "x - x / 2 ^ 53 \<le> round_double x"
proof -
  have x_pos: "0 < x" using assms pow2_pos [of "- 1022"] by linarith
  define e where "e = binade x"
  have lo: "pow2 e \<le> x" and hi: "x < pow2 (e + 1)"
    using binade_bounds [of x] x_pos by (simp_all add: e_def)
  have "pow2 (- 1022) < pow2 (e + 1)" using assms hi by simp
  then have "- 1022 < e + 1" by (rule pow2_less_exp)
  then have m: "max e (- 1022) = e" by simp
  define u where "u = pow2 (e - 52)"
  have u: "0 < u" by (simp add: u_def)
  have rd: "round_double x = of_int (round_half_even (x / u)) * u"
    using round_double_pos_eq [OF x_pos] by (simp add: e_def [symmetric] m u_def)
  have "u / 2 \<le> x / 2 ^ 53"
    using lo pow2_52_grid [of e] by (simp add: u_def field_simps)
  then have "x - x / 2 ^ 53 \<le> x - u / 2" by simp
  also have "\<dots> = (x / u - 1 / 2) * u" using u by (simp add: field_simps)
  also have "\<dots> \<le> of_int (round_half_even (x / u)) * u"
    using rhe_err_lo [of "x / u"] u by (simp only: mult_le_cancel_right_pos)
  finally show ?thesis by (simp add: rd)
qed

text \<open>
  \<^verbatim>\<open>int((m / w) * h)\<close> is \<open>m * h / w\<close> rounded down, or one less when the quotient is an
  integer that the two roundings fall short of.
\<close>

lemma scale_dim_near:
  assumes h: "1 \<le> h" "h \<le> w" and w: "w < 2 ^ 26" and m: "1 \<le> m" "m < 2 ^ 26"
    and r: "scale_dim m w h = Inr r"
  shows "(m * h - 1) div w \<le> r" and "r \<le> m * h div w"
proof -
  define t0 :: rat where "t0 = of_int m / of_int w"
  define t :: rat where "t = of_int (m * h) / of_int w"
  define q where "q = round_double t0"
  define x where "x = q * of_int h"
  define p where "p = round_double x"
  define k where "k = m * h div w"
  define c where "c = (m * h - 1) div w"
  have w_pos: "0 < w" using h by simp
  have wr: "(0::rat) < of_int w" using w_pos by simp
  have t0_pos: "0 < t0" using m w_pos by (simp add: t0_def)
  have tt: "t = t0 * of_int h" by (simp add: t_def t0_def)
  have t_le_m: "t \<le> of_int m"
  proof -
    have "t = of_int m * (of_int h / of_int w)" by (simp add: t_def)
    also have "\<dots> \<le> of_int m * 1"
      using h w_pos m by (intro mult_left_mono) simp_all
    finally show ?thesis by simp
  qed
  have t_nonneg: "0 \<le> t" using m h w_pos by (simp add: t_def)
  have mr: "(of_int m :: rat) < 2 ^ 26"
    using m by (simp add: of_int_less_numeral_power_cancel_iff)
  have wr26: "(of_int w :: rat) < 2 ^ 26"
    using w by (simp add: of_int_less_numeral_power_cancel_iff)
  have inv_w: "1 / 2 ^ 26 < 1 / (of_int w :: rat)"
    using wr26 wr by (simp add: field_simps)
  have "pow2 (- 1022) \<le> pow2 (- 26)" by (rule pow2_mono) simp
  also have "pow2 (- 26) = 1 / 2 ^ 26" by (simp add: pow2_neg pow2_nat)
  also have "\<dots> \<le> 1 / of_int w" using inv_w by simp
  also have "\<dots> \<le> t0"
    using m w_pos by (simp add: t0_def divide_right_mono)
  finally have normal: "pow2 (- 1022) \<le> t0" .
  have q_hi: "q \<le> t0 + t0 / 2 ^ 53" unfolding q_def using normal by (rule round_double_error)
  have q_lo: "t0 - t0 / 2 ^ 53 \<le> q" unfolding q_def using normal by (rule round_double_error_lo)
  have q0: "0 \<le> q" unfolding q_def using t0_pos by (intro round_double_nonneg) simp
  have hr: "(0::rat) \<le> of_int h" using h by simp
  have x_hi: "x \<le> t + t / 2 ^ 53"
  proof -
    have "x \<le> (t0 + t0 / 2 ^ 53) * of_int h"
      unfolding x_def using q_hi hr by (rule mult_right_mono)
    then show ?thesis by (simp add: tt field_simps)
  qed
  have x_lo: "t - t / 2 ^ 53 \<le> x"
  proof -
    have "(t0 - t0 / 2 ^ 53) * of_int h \<le> x"
      unfolding x_def using q_lo hr by (rule mult_right_mono)
    then show ?thesis by (simp add: tt field_simps)
  qed
  have x0: "0 \<le> x" using q0 hr by (simp add: x_def)
  have small: "t / 2 ^ 53 \<le> 1 / 2 ^ 27"
  proof -
    have "t \<le> 2 ^ 26" using t_le_m mr by linarith
    then show ?thesis by simp
  qed
  have f: "round_double (of_int h) = of_int h"
    using h w by (intro round_double_int) simp_all
  have p0: "0 \<le> p" unfolding p_def using x0 by (rule round_double_nonneg)
  have rp: "r = \<lfloor>p\<rfloor>"
    using scale_dim_Inr(2) [OF r] p0 by (simp add: p_def x_def q_def t0_def f Let_def)
  have k_lo: "0 \<le> k" using m h w_pos by (simp add: k_def pos_imp_zdiv_nonneg_iff)
  have k_hi: "k \<le> m"
  proof -
    have "m * h \<le> m * w" using h m by (intro mult_left_mono) simp_all
    then have "m * h div w \<le> m * w div w" by (rule zdiv_mono1) (rule w_pos)
    then show ?thesis using w_pos by (simp add: k_def)
  qed
  text \<open>The upper side.\<close>
  have "m * h = k * w + m * h mod w" by (simp add: k_def)
  moreover have "m * h mod w < w" using w_pos by simp
  moreover have "(k + 1) * w = k * w + w" by (simp add: algebra_simps)
  ultimately have "m * h < (k + 1) * w" by linarith
  then have "m * h + 1 \<le> (k + 1) * w" by simp
  then have "(of_int (m * h + 1) :: rat) \<le> of_int ((k + 1) * w)" by (simp only: of_int_le_iff)
  then have "t + 1 / of_int w \<le> of_int k + 1"
    using wr by (simp add: t_def field_simps)
  then have "x \<le> of_int k + 1 - 1 / 2 ^ 26 + 1 / 2 ^ 27"
    using x_hi small inv_w by linarith
  then have x_hi': "x \<le> of_int ((k + 1) * 2 ^ 27 - 1) / 2 ^ 27"
    by (simp add: field_simps)
  have p_hi: "p \<le> of_int ((k + 1) * 2 ^ 27 - 1) / 2 ^ 27"
  proof (cases "x = 0")
    case True
    then show ?thesis using k_lo by (simp add: p_def round_double_def)
  next
    case False
    with x0 have "0 < x" by simp
    moreover have "(k + 1) * 2 ^ 27 - 1 < 2 ^ 53" using k_hi m by simp
    ultimately show ?thesis unfolding p_def using x_hi' by (intro round_double_le) simp_all
  qed
  then have "p < of_int k + 1" by (simp add: field_simps)
  then show "r \<le> m * h div w" by (simp add: rp k_def floor_le_iff)
  text \<open>The lower side.\<close>
  have "m * h - 1 = c * w + (m * h - 1) mod w" by (simp add: c_def)
  moreover have "0 \<le> (m * h - 1) mod w" using w_pos by simp
  ultimately have "c * w \<le> m * h - 1" by linarith
  then have "(of_int (c * w) :: rat) \<le> of_int (m * h - 1)" by (simp only: of_int_le_iff)
  then have "of_int c \<le> t - 1 / of_int w"
    using wr by (simp add: t_def field_simps)
  moreover have "(1::rat) / 2 ^ 27 \<le> 1 / 2 ^ 26" by simp
  ultimately have c_x: "of_int c \<le> x" using x_lo small inv_w by linarith
  have c_hi: "c \<le> k" unfolding c_def k_def using w_pos by (intro zdiv_mono1) simp_all
  have "of_int c \<le> p"
  proof (cases "c \<le> 0")
    case True
    then have "(of_int c :: rat) \<le> 0" by simp
    with p0 show ?thesis by linarith
  next
    case False
    then have "0 < c" by simp
    moreover have "c < 2 ^ 53" using c_hi k_hi m by simp
    moreover have "of_int c / 2 ^ 0 \<le> x" using c_x by simp
    ultimately have "of_int c / 2 ^ 0 \<le> round_double x" by (intro round_double_ge) simp_all
    then show ?thesis by (simp add: p_def)
  qed
  then show "(m * h - 1) div w \<le> r" by (simp add: rp c_def le_floor_iff)
qed

text \<open>The requested box of lines 47 to 55.\<close>

lemma target_box_bounds:
  assumes tb: "target_box m w h = Inr (bw, bh)"
    and w: "1 \<le> w" "w < 2 ^ 53" and h: "1 \<le> h" "h < 2 ^ 53"
    and m: "1 \<le> m" "m < 2 ^ 52"
  shows "0 \<le> bw \<and> bw \<le> m \<and> 0 \<le> bh \<and> bh \<le> m \<and> max bw bh = m"
proof (cases "w \<ge> h")
  case True
  with tb have e: "bw = m" "scale_dim m w h = Inr bh"
    by (auto simp: target_box_def and_then_def split: sum.splits)
  from scale_dim_le [OF h(1) True w(2) m e(2)] e(1) m show ?thesis by simp
next
  case False
  with tb have e: "bh = m" "scale_dim m h w = Inr bw"
    by (auto simp: target_box_def and_then_def split: sum.splits)
  from False have "w \<le> h" by simp
  from scale_dim_le [OF w(1) this h(2) m e(2)] e(1) m show ?thesis by simp
qed

lemma target_box_covers:
  assumes tb: "target_box m w h = Inr (bw, bh)"
    and w: "1 \<le> w" "w < 2 ^ 53" and h: "1 \<le> h" "h < 2 ^ 53"
    and m: "w \<le> m" "h \<le> m"
  shows "w \<le> bw \<and> h \<le> bh"
proof (cases "w \<ge> h")
  case True
  with tb have e: "bw = m" "scale_dim m w h = Inr bh"
    by (auto simp: target_box_def and_then_def split: sum.splits)
  from scale_dim_ge [OF w(1) m(1) h e(2)] e(1) m show ?thesis by simp
next
  case False
  with tb have e: "bh = m" "scale_dim m h w = Inr bw"
    by (auto simp: target_box_def and_then_def split: sum.splits)
  from scale_dim_ge [OF h(1) m(2) w e(2)] e(1) m show ?thesis by simp
qed


text \<open>The side of the requested box that is computed, lines 50 and 53.\<close>

lemma target_box_near:
  assumes tb: "target_box m w h = Inr (bw, bh)"
    and w: "1 \<le> w" "w < 2 ^ 26" and h: "1 \<le> h" "h < 2 ^ 26"
    and m: "1 \<le> m" "m < 2 ^ 26"
  shows "if h \<le> w
         then bw = m \<and> (m * h - 1) div w \<le> bh \<and> bh \<le> m * h div w
         else bh = m \<and> (m * w - 1) div h \<le> bw \<and> bw \<le> m * w div h"
proof (cases "w \<ge> h")
  case True
  with tb have e: "bw = m" "scale_dim m w h = Inr bh"
    by (auto simp: target_box_def and_then_def split: sum.splits)
  from scale_dim_near [OF h(1) True w(2) m e(2)] e(1) True show ?thesis by simp
next
  case False
  then have le: "w \<le> h" by simp
  from False tb have e: "bh = m" "scale_dim m h w = Inr bw"
    by (auto simp: target_box_def and_then_def split: sum.splits)
  from scale_dim_near [OF w(1) le h(2) m e(2)] e(1) False show ?thesis by simp
qed


section \<open>Evaluating concrete runs\<close>

lemmas run_defs = compress_image_def read_def upload_def compress_image_run_def first_encode_def
  open_rgb_def ref_pil_def ref_open_def rgb_file_def target_box_def and_then_def raising_def
  save_jpeg_def ref_save_def ref_thumbnail_def thumbnail_size_def round_aspect_def tell_def
  reduce_quality.simps shrink_dimensions_def boost_quality_def Let_def
  floor_rat_numeral ceiling_rat_numeral

lemma scale_500_2000_1000: "scale_dim 500 2000 1000 = Inr 250"
  by (simp add: float_eval)

lemma scale_2000_4000_2000: "scale_dim 2000 4000 2000 = Inr 1000"
  by (simp add: float_eval)

lemma scale_600_1200_720: "scale_dim 600 1200 720 = Inr 360"
  by (simp add: float_eval)

lemma shrink_2000: "shrink_dim 2000 = Inr 1800"
  by (simp add: float_eval)

lemma shrink_1000: "shrink_dim 1000 = Inr 900"
  by (simp add: float_eval)

lemma shrink_600: "shrink_dim 600 = Inr 540"
  by (simp add: float_eval)

lemma shrink_360: "shrink_dim 360 = Inr 324"
  by (simp add: float_eval)

lemma scale_500_1000_3: "scale_dim 500 1000 3 = Inr 1"
  by (simp add: float_eval)

lemma scale_500_5_4: "scale_dim 500 5 4 = Inr 400"
  by (simp add: float_eval)

lemma scale_2000_1500_1000: "scale_dim 2000 1500 1000 = Inr 1333"
  by (simp add: float_eval)

lemma scale_3333_6666_6666: "scale_dim 3333 6666 6666 = Inr 3333"
  by (simp add: float_eval)

lemma scale_2000_1900_1900: "scale_dim 2000 1900 1900 = Inr 2000"
  by (simp add: float_eval)

lemma scale_500_300_200: "scale_dim 500 300 200 = Inr 333"
  by (simp add: float_eval)

lemma shrink_1333: "shrink_dim 1333 = Inr 1199"
  by (simp add: shrink_dim_eq)

lemma shrink_3333: "shrink_dim 3333 = Inr 2999"
  by (simp add: shrink_dim_eq)


lemma scale_1001_2002_1998: "scale_dim 1001 2002 1998 = Inr 999"
  by (simp add: float_eval)

lemma shrink_1001: "shrink_dim 1001 = Inr 900"
  by (simp add: shrink_dim_eq)

lemma shrink_999: "shrink_dim 999 = Inr 899"
  by (simp add: shrink_dim_eq)


section \<open>The stages of a run\<close>

lemma save_calls_save_jpeg:
  "save_calls (save_jpeg P q s) = saves s @ [(Image_size P (img s), q)]"
  by (simp add: save_calls_def save_jpeg_def Let_def split: sum.splits)

lemma save_jpeg_Inr:
  assumes "save_jpeg P q s = Inr s'"
  shows "s' = s\<lparr>output_bytes := output_bytes s',
                 saves := saves s @ [(Image_size P (img s), q)]\<rparr>"
    and "Image_save P (img s) q = Inr (output_bytes s')"
  using assms by (auto simp: save_jpeg_def Let_def split: sum.splits)

lemma ceil_fifth: "nat \<lceil>rat_of_int d / 5\<rceil> = nat ((d + 4) div 5)"
proof -
  have "\<lceil>rat_of_int d / 5\<rceil> = - (- d div 5)"
    using ceiling_divide_eq_div [of d 5, where ?'a = rat] by simp
  also have "\<dots> = (d + 4) div 5" by presburger
  finally show ?thesis by simp
qed

lemma reduce_quality_stop:
  "\<not> (tell s > 150 * 1024 \<and> quality s > m) \<Longrightarrow> reduce_quality P m s = Inr s"
  by (subst reduce_quality.simps) auto

lemma reduce_quality_step:
  "tell s > 150 * 1024 \<Longrightarrow> quality s > m \<Longrightarrow>
   reduce_quality P m s =
     (case save_jpeg P (quality s - 5) (s\<lparr>quality := quality s - 5\<rparr>) of
        Inl e \<Rightarrow> Inl e
      | Inr s' \<Rightarrow> reduce_quality P m s')"
  by (subst reduce_quality.simps) auto

lemma reduce_quality_calls:
  "length (save_calls (reduce_quality P m s))
     \<le> length (saves s) + nat ((quality s - m + 4) div 5)"
proof (induction P m s rule: reduce_quality.induct)
  case (1 P m s)
  show ?case
  proof (cases "tell s > 150 * 1024 \<and> quality s > m")
    case False
    then have "reduce_quality P m s = Inr s" by (rule reduce_quality_stop)
    then show ?thesis by (simp add: save_calls_def)
  next
    case True
    then have pos: "1 \<le> (quality s - m + 4) div 5" by presburger
    from True have step: "reduce_quality P m s =
     (case save_jpeg P (quality s - 5) (s\<lparr>quality := quality s - 5\<rparr>) of
        Inl e \<Rightarrow> Inl e
      | Inr s' \<Rightarrow> reduce_quality P m s')"
      by (intro reduce_quality_step) simp_all
    show ?thesis
    proof (cases "save_jpeg P (quality s - 5) (s\<lparr>quality := quality s - 5\<rparr>)")
      case (Inl a)
      then have "save_calls (reduce_quality P m s)
                   = save_calls (save_jpeg P (quality s - 5) (s\<lparr>quality := quality s - 5\<rparr>))"
        unfolding step by (simp add: save_calls_def)
      then show ?thesis using pos by (simp add: save_calls_save_jpeg)
    next
      case (Inr s')
      have r: "reduce_quality P m s = reduce_quality P m s'"
        unfolding step using Inr by simp
      have sv: "saves s' = saves s @ [(Image_size P (img s), quality s - 5)]"
        and q: "quality s' = quality s - 5"
        using Inr by (auto simp: save_jpeg_def Let_def split: sum.splits)
      have "(quality s' - m + 4) div 5 = (quality s - m + 4) div 5 - 1"
        unfolding q by presburger
      with "1.IH" [OF _ Inr] True sv pos show ?thesis
        unfolding r by simp
    qed
  qed
qed

text \<open>What the loop leaves unchanged, and where it stops.\<close>

lemma reduce_quality_Inr:
  "reduce_quality P m s = Inr s' \<Longrightarrow>
     img s' = img s \<and> width s' = width s \<and> height s' = height s \<and>
     max_dimensions s' = max_dimensions s \<and> new_dimensions s' = new_dimensions s \<and>
     original_size s' = original_size s \<and> quality s' \<le> quality s \<and>
     \<not> (tell s' > 150 * 1024 \<and> quality s' > m) \<and>
     (\<exists>qs. saves s' = saves s @ map (\<lambda>q. (Image_size P (img s), q)) qs) \<and>
     (saves s \<noteq> [] \<and> fst (last (saves s)) = Image_size P (img s) \<and>
        Image_save P (img s) (snd (last (saves s))) = Inr (output_bytes s) \<longrightarrow>
      saves s' \<noteq> [] \<and> fst (last (saves s')) = Image_size P (img s') \<and>
        Image_save P (img s') (snd (last (saves s'))) = Inr (output_bytes s'))"
proof (induction P m s rule: reduce_quality.induct)
  case (1 P m s)
  show ?case
  proof (cases "tell s > 150 * 1024 \<and> quality s > m")
    case False
    then have "reduce_quality P m s = Inr s" by (rule reduce_quality_stop)
    with "1.prems" have "s' = s" by simp
    with False show ?thesis by auto
  next
    case True
    from True have step: "reduce_quality P m s =
     (case save_jpeg P (quality s - 5) (s\<lparr>quality := quality s - 5\<rparr>) of
        Inl e \<Rightarrow> Inl e
      | Inr s' \<Rightarrow> reduce_quality P m s')"
      by (intro reduce_quality_step) simp_all
    from "1.prems" obtain s1 where
      s1: "save_jpeg P (quality s - 5) (s\<lparr>quality := quality s - 5\<rparr>) = Inr s1"
      and r: "reduce_quality P m s1 = Inr s'"
      unfolding step by (auto split: sum.splits)
    note ih = "1.IH" [OF True s1 r]
    from save_jpeg_Inr [OF s1]
    have e: "s1 = s\<lparr>quality := quality s - 5, output_bytes := output_bytes s1,
                    saves := saves s @ [(Image_size P (img s), quality s - 5)]\<rparr>"
      and sv: "Image_save P (img s) (quality s - 5) = Inr (output_bytes s1)"
      by simp_all
    have f: "img s1 = img s" "width s1 = width s" "height s1 = height s"
      "max_dimensions s1 = max_dimensions s" "new_dimensions s1 = new_dimensions s"
      "original_size s1 = original_size s" "quality s1 = quality s - 5"
      "saves s1 = saves s @ [(Image_size P (img s), quality s - 5)]"
      by (subst e, simp)+
    from ih obtain qs where qs: "saves s' = saves s1 @ map (\<lambda>q. (Image_size P (img s1), q)) qs"
      by blast
    have "saves s' = saves s @ map (\<lambda>q. (Image_size P (img s), q)) ((quality s - 5) # qs)"
      using qs f by simp
    then have ex: "\<exists>qs. saves s' = saves s @ map (\<lambda>q. (Image_size P (img s), q)) qs" ..
    have inv1: "saves s1 \<noteq> [] \<and> fst (last (saves s1)) = Image_size P (img s1) \<and>
        Image_save P (img s1) (snd (last (saves s1))) = Inr (output_bytes s1)"
      using f sv by simp
    show ?thesis using ih f ex inv1 by auto
  qed
qed

lemma first_encode_Inr:
  assumes "first_encode P content md M = Inr s"
  obtains im0 where "open_rgb P content = Inr im0"
    and "Image_size P im0 = (width s, height s)"
    and "target_box md (width s) (height s) = Inr (max_dimensions s)"
    and "Image_thumbnail P im0 (max_dimensions s) = Inr (img s)"
    and "Image_save P (img s) M = Inr (output_bytes s)"
    and "saves s = [(Image_size P (img s), M)]"
    and "quality s = M" and "new_dimensions s = None"
    and "original_size s = int (length content)"
  using assms
  by (auto simp: first_encode_def and_then_def raising_def save_jpeg_def Let_def
        split: sum.splits prod.splits)

lemma first_encode_calls: "length (save_calls (first_encode P content md M)) \<le> 1"
  by (auto simp: first_encode_def and_then_def raising_def save_jpeg_def Let_def save_calls_def
        split: sum.splits prod.splits)

lemma shrink_dimensions_Inr:
  assumes "shrink_dimensions P m s = Inr s'"
  shows "if tell s > 150 * 1024
         then \<exists>a b. shrink_dim (fst (max_dimensions s)) = Inr a \<and>
                shrink_dim (snd (max_dimensions s)) = Inr b \<and>
                Image_thumbnail P (img s) (a, b) = Inr (img s') \<and>
                Image_save P (img s') m = Inr (output_bytes s') \<and>
                s' = s\<lparr>img := img s', new_dimensions := Some (a, b),
                       output_bytes := output_bytes s',
                       saves := saves s @ [(Image_size P (img s'), m)]\<rparr>
         else s' = s"
  using assms
  by (auto simp: shrink_dimensions_def and_then_def raising_def save_jpeg_def Let_def
        split: sum.splits if_splits)

lemma shrink_dimensions_calls:
  "length (save_calls (shrink_dimensions P m s)) \<le> length (saves s) + 1"
  by (auto simp: shrink_dimensions_def and_then_def raising_def save_jpeg_def Let_def
        save_calls_def split: sum.splits)

lemma boost_quality_Inr:
  assumes "boost_quality P t M s = Inr s'"
  shows "if tell s < t * 1024 \<and> quality s < M
         then Image_save P (img s) (min (quality s + 10) M) = Inr (output_bytes s') \<and>
              s' = s\<lparr>quality := min (quality s + 10) M, output_bytes := output_bytes s',
                     saves := saves s @ [(Image_size P (img s), min (quality s + 10) M)]\<rparr>
         else s' = s"
  using assms
  by (auto simp: boost_quality_def save_jpeg_def Let_def split: sum.splits if_splits)

lemma boost_quality_calls:
  "length (save_calls (boost_quality P t M s)) \<le> length (saves s) + 1"
  by (auto simp: boost_quality_def save_jpeg_def Let_def save_calls_def split: sum.splits)

lemma compress_image_run_Inr:
  assumes "compress_image_run P content md t m M = Inr s"
  obtains s1 s2 s3 where "first_encode P content md M = Inr s1"
    and "reduce_quality P m s1 = Inr s2"
    and "shrink_dimensions P m s2 = Inr s3"
    and "boost_quality P t M s3 = Inr s"
  using assms
  by (auto simp: compress_image_run_def and_then_def split: sum.splits)

lemma save_calls_and_then:
  "save_calls (and_then r f) = (case r of Inl e \<Rightarrow> save_calls r | Inr s \<Rightarrow> save_calls (f s))"
  by (simp add: and_then_def save_calls_def split: sum.splits)


section \<open>The reference library meets the documented contract\<close>

lemma round_aspect_le:
  assumes "x \<le> of_int n" "1 \<le> n"
  shows "round_aspect x key \<le> n"
proof -
  have c: "\<lceil>x\<rceil> \<le> n" using assms by (simp add: ceiling_le_iff)
  have "\<lfloor>x\<rfloor> \<le> n" using floor_le_ceiling [of x] c by (rule order_trans)
  with c show ?thesis using assms by (simp add: round_aspect_def)
qed

lemma thumbnail_size_fits:
  assumes t: "thumbnail_size (w, h) (x, y) = Inr (a, b)" and w: "1 \<le> w" and h: "1 \<le> h"
    and y0: "0 \<le> y"
  shows "a \<le> x \<and> b \<le> y"
proof (cases "x \<ge> w \<and> y \<ge> h")
  case True
  then show ?thesis using t by (simp add: thumbnail_size_def)
next
  case False
  with t h y0 have y: "1 \<le> y" by (auto simp: thumbnail_size_def split: if_splits)
  have asp: "(0::rat) < of_int w / of_int h" using w h by simp
  show ?thesis
  proof (cases "(of_int x :: rat) / of_int y \<ge> of_int w / of_int h")
    case True
    then have "(of_int y :: rat) * (of_int w / of_int h) \<le> of_int x"
      using y by (simp add: field_simps)
    moreover have "0 < (of_int x :: rat) / of_int y" using True asp by linarith
    then have "1 \<le> x" using y by (simp add: zero_less_divide_iff)
    ultimately have "round_aspect (of_int y * (of_int w / of_int h))
                       (\<lambda>n. \<bar>of_int w / of_int h - of_int n / of_int y\<bar>) \<le> x"
      by (intro round_aspect_le)
    moreover have "a = round_aspect (of_int y * (of_int w / of_int h))
                       (\<lambda>n. \<bar>of_int w / of_int h - of_int n / of_int y\<bar>) \<and> b = y"
      using t False True h y by (auto simp: thumbnail_size_def Let_def)
    ultimately show ?thesis by simp
  next
    case no: False
    then have "(of_int x :: rat) / (of_int w / of_int h) \<le> of_int y"
      using y asp w h by (simp add: field_simps)
    then have "round_aspect (of_int x / (of_int w / of_int h))
                 (\<lambda>n. if n = 0 then 0 else \<bar>of_int w / of_int h - of_int x / of_int n\<bar>) \<le> y"
      using y by (intro round_aspect_le)
    moreover have "b = round_aspect (of_int x / (of_int w / of_int h))
                 (\<lambda>n. if n = 0 then 0 else \<bar>of_int w / of_int h - of_int x / of_int n\<bar>)
               \<and> a = x"
      using t False no h y by (auto simp: thumbnail_size_def Let_def)
    ultimately show ?thesis by simp
  qed
qed


lemma ref_pil_thumbnail_fits: "thumbnail_fits ref_pil"
  unfolding thumbnail_fits_def
proof (intro allI impI)
  fix im :: raster and box :: "int \<times> int" and im'
  assume a: "0 \<le> fst box \<and> 0 \<le> snd box \<and> Image_thumbnail ref_pil im box = Inr im'"
  obtain w h where sz: "r_size im = (w, h)" by (cases "r_size im")
  obtain x y where box: "box = (x, y)" by (cases box)
  obtain c d where sz': "r_size im' = (c, d)" by (cases "r_size im'")
  from a sz box sz' have pos: "1 \<le> w" "1 \<le> h" and t: "thumbnail_size (w, h) (x, y) = Inr (c, d)"
    by (auto simp: ref_pil_def ref_thumbnail_def split: if_splits sum.splits)
  from thumbnail_size_fits [OF t pos] a box have "c \<le> x \<and> d \<le> y" by simp
  then show "fst (Image_size ref_pil im') \<le> fst box \<and> snd (Image_size ref_pil im') \<le> snd box"
    by (simp add: ref_pil_def sz' box)
qed

text \<open>The reference library follows the size rule.\<close>

lemma rounded_side_rat:
  assumes den: "0 < den" and n: "1 \<le> n"
    and lo: "2 * (of_int num / of_int den - of_int n) \<le> (1 :: rat)"
    and hi: "(of_int n - of_int num / of_int den) * (2 * of_int n - 1) \<le> (of_int n :: rat)"
  shows "rounded_side n num den"
proof -
  define q :: rat where "q = of_int num / of_int den"
  have dr: "(0 :: rat) < of_int den" using den by simp
  have num: "(of_int num :: rat) = q * of_int den" using dr by (simp add: q_def)
  have "2 * (q - of_int n) * of_int den \<le> 1 * of_int den"
    using lo dr unfolding q_def [symmetric] by (intro mult_right_mono) simp_all
  moreover have "2 * (q - of_int n) * of_int den = 2 * (of_int num - of_int n * of_int den)"
    by (simp add: num algebra_simps)
  ultimately have "2 * (of_int num - of_int n * of_int den) \<le> (of_int den :: rat)" by simp
  then have "(of_int (2 * (num - n * den)) :: rat) \<le> of_int den" by simp
  then have a: "2 * (num - n * den) \<le> den" by (simp only: of_int_le_iff)
  have "(of_int n - q) * (2 * of_int n - 1) * of_int den \<le> of_int n * of_int den"
    using hi dr unfolding q_def [symmetric] by (intro mult_right_mono) simp_all
  moreover have "(of_int n - q) * (2 * of_int n - 1) * of_int den
                   = (of_int n * of_int den - of_int num) * (2 * of_int n - 1)"
    by (simp add: num algebra_simps)
  ultimately have "(of_int n * of_int den - of_int num) * (2 * of_int n - 1)
                     \<le> (of_int n * of_int den :: rat)" by simp
  then have "(of_int ((n * den - num) * (2 * n - 1)) :: rat) \<le> of_int (n * den)" by simp
  then have b: "(n * den - num) * (2 * n - 1) \<le> n * den" by (simp only: of_int_le_iff)
  from n a b show ?thesis by (simp add: rounded_side_def)
qed

lemma round_aspect_nearest:
  fixes t :: rat
  assumes t0: "0 \<le> t"
    and key: "key \<lceil>t\<rceil> < key \<lfloor>t\<rfloor> \<longrightarrow>
                (of_int \<lceil>t\<rceil> - t) * (2 * of_int \<lceil>t\<rceil> - 1) \<le> of_int \<lceil>t\<rceil>"
    and key': "\<not> key \<lceil>t\<rceil> < key \<lfloor>t\<rfloor> \<longrightarrow> 1 \<le> \<lfloor>t\<rfloor> \<longrightarrow> t - of_int \<lfloor>t\<rfloor> \<le> 1 / 2"
  shows "1 \<le> round_aspect t key"
    and "2 * (t - of_int (round_aspect t key)) \<le> 1"
    and "(of_int (round_aspect t key) - t) * (2 * of_int (round_aspect t key) - 1)
           \<le> of_int (round_aspect t key)"
proof -
  define f where "f = \<lfloor>t\<rfloor>"
  define c where "c = \<lceil>t\<rceil>"
  define n where "n = round_aspect t key"
  have f: "of_int f \<le> t" "t < of_int f + 1" unfolding f_def by linarith+
  have c: "t \<le> of_int c" "of_int c - 1 < t" unfolding c_def by linarith+
  have f0: "0 \<le> f" using t0 by (simp add: f_def)
  have n1: "1 \<le> n" by (simp add: n_def round_aspect_def)
  have goal: "2 * (t - of_int n) \<le> 1 \<and> (of_int n - t) * (2 * of_int n - 1) \<le> of_int n"
  proof (cases "key c < key f")
    case True
    with key have near: "(of_int c - t) * (2 * of_int c - 1) \<le> of_int c"
      by (simp add: c_def f_def)
    have "f \<le> c" by (simp add: f_def c_def floor_le_ceiling)
    moreover have "c \<noteq> f" using True by auto
    ultimately have "0 < c" using f0 by simp
    then have c1: "1 \<le> c" by simp
    with True have nc: "n = c" by (simp add: n_def round_aspect_def c_def f_def)
    show ?thesis using near c(1) by (simp add: nc)
  next
    case False
    show ?thesis
    proof (cases "1 \<le> f")
      case True
      with False have nf: "n = f" by (simp add: n_def round_aspect_def c_def f_def)
      from key' False True have "t - of_int f \<le> 1 / 2" by (simp add: c_def f_def)
      moreover have "(of_int f - t) * (2 * of_int f - 1) \<le> 0"
        using f(1) True by (intro mult_nonpos_nonneg) simp_all
      moreover have "(0 :: rat) \<le> of_int f" using f0 by simp
      ultimately show ?thesis by (simp add: nf)
    next
      case f1: False
      with f0 have fz: "f = 0" by simp
      with False have n: "n = 1" by (simp add: n_def round_aspect_def c_def f_def)
      from f fz have "t < 1" by simp
      with t0 show ?thesis by (simp add: n)
    qed
  qed
  show "1 \<le> round_aspect t key" using n1 by (simp add: n_def)
  show "2 * (t - of_int (round_aspect t key)) \<le> 1" using goal by (simp add: n_def)
  show "(of_int (round_aspect t key) - t) * (2 * of_int (round_aspect t key) - 1)
           \<le> of_int (round_aspect t key)" using goal by (simp add: n_def)
qed


lemma ceiling_floor_cases:
  fixes t :: rat
  obtains "\<lceil>t\<rceil> = \<lfloor>t\<rfloor>" "t = of_int \<lfloor>t\<rfloor>" | "\<lceil>t\<rceil> = \<lfloor>t\<rfloor> + 1"
  by (cases "t = of_int \<lfloor>t\<rfloor>") (simp_all add: ceiling_altdef)

text \<open>In the branch that keeps the height, the key is the distance to the width.\<close>

lemma round_aspect_linear:
  fixes A Y :: rat
  assumes Y: "0 < Y" and A: "0 \<le> A"
  shows "1 \<le> round_aspect (Y * A) (\<lambda>n. \<bar>A - of_int n / Y\<bar>)"
    and "2 * (Y * A - of_int (round_aspect (Y * A) (\<lambda>n. \<bar>A - of_int n / Y\<bar>))) \<le> 1"
    and "(of_int (round_aspect (Y * A) (\<lambda>n. \<bar>A - of_int n / Y\<bar>)) - Y * A)
           * (2 * of_int (round_aspect (Y * A) (\<lambda>n. \<bar>A - of_int n / Y\<bar>)) - 1)
         \<le> of_int (round_aspect (Y * A) (\<lambda>n. \<bar>A - of_int n / Y\<bar>))"
proof -
  define t where "t = Y * A"
  define f where "f = \<lfloor>t\<rfloor>"
  define c where "c = \<lceil>t\<rceil>"
  have t0: "0 \<le> t" using Y A by (simp add: t_def)
  have f: "of_int f \<le> t" unfolding f_def by linarith
  have c: "t \<le> of_int c" unfolding c_def by linarith
  have f0: "0 \<le> f" using t0 by (simp add: f_def)
  have k: "\<bar>A - of_int m / Y\<bar> = \<bar>t - of_int m\<bar> / Y" for m :: int
  proof -
    have "A - of_int m / Y = (t - of_int m) / Y" using Y by (simp add: t_def field_simps)
    then show ?thesis using Y by (simp add: abs_divide)
  qed
  have cmp: "\<bar>A - of_int c / Y\<bar> < \<bar>A - of_int f / Y\<bar> \<longleftrightarrow> of_int c - t < t - of_int f"
    using Y f c by (simp add: k divide_less_cancel)
  have k1: "\<bar>A - of_int c / Y\<bar> < \<bar>A - of_int f / Y\<bar> \<longrightarrow>
            (of_int c - t) * (2 * of_int c - 1) \<le> of_int c"
  proof
    assume "\<bar>A - of_int c / Y\<bar> < \<bar>A - of_int f / Y\<bar>"
    with cmp have lt: "of_int c - t < t - of_int f" by simp
    show "(of_int c - t) * (2 * of_int c - 1) \<le> of_int c"
    proof (cases t rule: ceiling_floor_cases)
      case 1
      with lt show ?thesis by (simp add: c_def f_def)
    next
      case 2
      then have cf: "c = f + 1" by (simp add: c_def f_def)
      with lt have near: "of_int c - t < 1 / 2" by simp
      have c1: "1 \<le> c" using cf f0 by simp
      have "(of_int c - t) * (2 * of_int c - 1) \<le> (1 / 2) * (2 * of_int c - 1)"
        using near c1 by (intro mult_right_mono) simp_all
      also have "\<dots> \<le> of_int c" by simp
      finally show ?thesis .
    qed
  qed
  have k2: "\<not> \<bar>A - of_int c / Y\<bar> < \<bar>A - of_int f / Y\<bar> \<longrightarrow> 1 \<le> f \<longrightarrow> t - of_int f \<le> 1 / 2"
  proof (intro impI)
    assume "\<not> \<bar>A - of_int c / Y\<bar> < \<bar>A - of_int f / Y\<bar>"
    with cmp have ge: "t - of_int f \<le> of_int c - t" by simp
    show "t - of_int f \<le> 1 / 2"
    proof (cases t rule: ceiling_floor_cases)
      case 1
      then show ?thesis by (simp add: f_def)
    next
      case 2
      then have "c = f + 1" by (simp add: c_def f_def)
      with ge show ?thesis by simp
    qed
  qed
  note r = round_aspect_nearest [of t "\<lambda>n. \<bar>A - of_int n / Y\<bar>",
      OF t0 k1 [unfolded c_def f_def] k2 [unfolded c_def f_def]]
  show "1 \<le> round_aspect (Y * A) (\<lambda>n. \<bar>A - of_int n / Y\<bar>)"
    using r(1) by (simp add: t_def)
  show "2 * (Y * A - of_int (round_aspect (Y * A) (\<lambda>n. \<bar>A - of_int n / Y\<bar>))) \<le> 1"
    using r(2) by (simp add: t_def)
  show "(of_int (round_aspect (Y * A) (\<lambda>n. \<bar>A - of_int n / Y\<bar>)) - Y * A)
           * (2 * of_int (round_aspect (Y * A) (\<lambda>n. \<bar>A - of_int n / Y\<bar>)) - 1)
         \<le> of_int (round_aspect (Y * A) (\<lambda>n. \<bar>A - of_int n / Y\<bar>))"
    using r(3) by (simp add: t_def)
qed

text \<open>In the branch that keeps the width, the key is the distance between aspect ratios.\<close>

lemma round_aspect_harmonic:
  fixes A x :: rat
  assumes A: "0 < A" and x: "0 \<le> x"
  shows "1 \<le> round_aspect (x / A) (\<lambda>n. if n = 0 then 0 else \<bar>A - x / of_int n\<bar>)"
    and "2 * (x / A - of_int (round_aspect (x / A)
                 (\<lambda>n. if n = 0 then 0 else \<bar>A - x / of_int n\<bar>))) \<le> 1"
    and "(of_int (round_aspect (x / A) (\<lambda>n. if n = 0 then 0 else \<bar>A - x / of_int n\<bar>)) - x / A)
           * (2 * of_int (round_aspect (x / A)
                    (\<lambda>n. if n = 0 then 0 else \<bar>A - x / of_int n\<bar>)) - 1)
         \<le> of_int (round_aspect (x / A) (\<lambda>n. if n = 0 then 0 else \<bar>A - x / of_int n\<bar>))"
proof -
  define t where "t = x / A"
  define f where "f = \<lfloor>t\<rfloor>"
  define c where "c = \<lceil>t\<rceil>"
  define key where "key = (\<lambda>n :: int. if n = 0 then 0 else \<bar>A - x / of_int n\<bar>)"
  have xt: "x = t * A" using A by (simp add: t_def)
  have t0: "0 \<le> t" using A x by (simp add: t_def)
  have f: "of_int f \<le> t" unfolding f_def by linarith
  have c: "t \<le> of_int c" unfolding c_def by linarith
  have f0: "0 \<le> f" using t0 by (simp add: f_def)
  have fc: "f \<le> c" by (simp add: f_def c_def floor_le_ceiling)
  have k: "key m = A * (\<bar>of_int m - t\<bar> / of_int m)" if "1 \<le> m" for m :: int
  proof -
    have m: "(0 :: rat) < of_int m" using that by simp
    then have "A - x / of_int m = A * ((of_int m - t) / of_int m)"
      by (simp add: xt field_simps)
    then have "\<bar>A - x / of_int m\<bar> = A * (\<bar>of_int m - t\<bar> / of_int m)"
      using A m by (simp add: abs_mult abs_divide)
    with that show ?thesis by (simp add: key_def)
  qed
  have cmp: "key c < key f \<longleftrightarrow> (of_int c - t) * of_int f < (t - of_int f) * of_int c"
    if "1 \<le> f"
  proof -
    from that fc have c1: "1 \<le> c" by simp
    have fr: "(0 :: rat) < of_int f" and cr: "(0 :: rat) < of_int c" using that c1 by simp_all
    have ac: "\<bar>of_int c - t\<bar> = of_int c - t" using c by simp
    have af: "\<bar>of_int f - t\<bar> = t - of_int f" using f by simp
    have kc: "key c = A * ((of_int c - t) / of_int c)" by (simp only: k [OF c1] ac)
    have kf: "key f = A * ((t - of_int f) / of_int f)" by (simp only: k [OF that] af)
    have "key c < key f \<longleftrightarrow> (of_int c - t) / of_int c < (t - of_int f) / of_int f"
      unfolding kc kf using A by (rule mult_less_cancel_left_pos)
    also have "\<dots> \<longleftrightarrow> (of_int c - t) * of_int f < (t - of_int f) * of_int c"
      using fr cr by (simp add: field_simps)
    finally show ?thesis .
  qed
  have k1: "key c < key f \<longrightarrow> (of_int c - t) * (2 * of_int c - 1) \<le> of_int c"
  proof
    assume lt: "key c < key f"
    have f1: "1 \<le> f"
    proof (rule ccontr)
      assume "\<not> 1 \<le> f"
      with f0 have "f = 0" by simp
      then have "key f = 0" by (simp add: key_def)
      moreover have "0 \<le> key c" by (simp add: key_def)
      ultimately show False using lt by simp
    qed
    from lt cmp [OF f1] have e: "(of_int c - t) * of_int f < (t - of_int f) * of_int c" by simp
    show "(of_int c - t) * (2 * of_int c - 1) \<le> of_int c"
    proof (cases t rule: ceiling_floor_cases)
      case 1
      with lt show ?thesis by (simp add: c_def f_def)
    next
      case 2
      then have cf: "(of_int f :: rat) = of_int c - 1" by (simp add: c_def f_def)
      from e have "(of_int c - t) * (of_int c - 1) < (t - (of_int c - 1)) * of_int c"
        by (simp only: cf)
      then have "(of_int c - t) * (2 * of_int c - 1) < of_int c" by (simp add: algebra_simps)
      then show ?thesis by simp
    qed
  qed
  have k2: "\<not> key c < key f \<longrightarrow> 1 \<le> f \<longrightarrow> t - of_int f \<le> 1 / 2"
  proof (intro impI)
    assume ge: "\<not> key c < key f" and f1: "1 \<le> f"
    from ge cmp [OF f1] have e: "(t - of_int f) * of_int c \<le> (of_int c - t) * of_int f" by simp
    show "t - of_int f \<le> 1 / 2"
    proof (cases t rule: ceiling_floor_cases)
      case 1
      then show ?thesis by (simp add: f_def)
    next
      case 2
      then have cf: "(of_int c :: rat) = of_int f + 1" by (simp add: c_def f_def)
      from e have "(t - of_int f) * (of_int f + 1) \<le> (of_int f + 1 - t) * of_int f"
        by (simp only: cf)
      then have b: "(t - of_int f) * (2 * of_int f + 1) \<le> of_int f" by (simp add: algebra_simps)
      show ?thesis
      proof (rule ccontr)
        assume "\<not> t - of_int f \<le> 1 / 2"
        then have "1 / 2 < t - of_int f" by simp
        then have "(1 / 2) * (2 * of_int f + 1) < (t - of_int f) * (2 * of_int f + 1)"
          using f1 by (intro mult_strict_right_mono) simp_all
        with b show False by simp
      qed
    qed
  qed
  note r = round_aspect_nearest [of t key, OF t0 k1 [unfolded c_def f_def] k2 [unfolded c_def f_def]]
  show "1 \<le> round_aspect (x / A) (\<lambda>n. if n = 0 then 0 else \<bar>A - x / of_int n\<bar>)"
    using r(1) by (simp add: t_def key_def)
  show "2 * (x / A - of_int (round_aspect (x / A)
                 (\<lambda>n. if n = 0 then 0 else \<bar>A - x / of_int n\<bar>))) \<le> 1"
    using r(2) by (simp add: t_def key_def)
  show "(of_int (round_aspect (x / A) (\<lambda>n. if n = 0 then 0 else \<bar>A - x / of_int n\<bar>)) - x / A)
           * (2 * of_int (round_aspect (x / A)
                    (\<lambda>n. if n = 0 then 0 else \<bar>A - x / of_int n\<bar>)) - 1)
         \<le> of_int (round_aspect (x / A) (\<lambda>n. if n = 0 then 0 else \<bar>A - x / of_int n\<bar>))"
    using r(3) by (simp add: t_def key_def)
qed

lemma thumbnail_size_follows:
  assumes t: "thumbnail_size (w, h) (x, y) = Inr (c, d)" and w: "1 \<le> w" and h: "1 \<le> h"
    and x0: "0 \<le> x" and y0: "0 \<le> y" and c: "1 \<le> c" and d: "1 \<le> d"
  shows "follows_size_rule (w, h) (x, y) (c, d)"
proof (cases "x \<ge> w \<and> y \<ge> h")
  case True
  then show ?thesis using t by (simp add: thumbnail_size_def follows_size_rule_def)
next
  case False
  with t h y0 have y: "1 \<le> y" by (auto simp: thumbnail_size_def split: if_splits)
  define A :: rat where "A = of_int w / of_int h"
  have wr: "(0::rat) < of_int w" and hr: "(0::rat) < of_int h" and yr: "(0::rat) < of_int y"
    using w h y by simp_all
  have A: "0 < A" using wr hr by (simp add: A_def)
  have "A \<le> of_int x / of_int y \<longleftrightarrow> (of_int (y * w) :: rat) \<le> of_int (x * h)"
    using hr yr by (simp add: A_def field_simps)
  then have cond: "A \<le> of_int x / of_int y \<longleftrightarrow> y * w \<le> x * h"
    by (simp only: of_int_le_iff)
  show ?thesis
  proof (cases "y * w \<le> x * h")
    case True
    with cond have ge: "A \<le> of_int x / of_int y" by simp
    have cd: "c = round_aspect (of_int y * A) (\<lambda>n. \<bar>A - of_int n / of_int y\<bar>)" "d = y"
      using t False ge h y by (auto simp: thumbnail_size_def Let_def A_def)
    have e: "of_int y * A = (of_int (y * w) :: rat) / of_int h" by (simp add: A_def)
    note r = round_aspect_linear [of "of_int y" A, OF yr less_imp_le [OF A], folded cd(1)]
    have h0: "0 < h" using h by simp
    have "rounded_side c (y * w) h"
      using h0 c r(2) [unfolded e] r(3) [unfolded e] by (rule rounded_side_rat)
    moreover have "y < h"
    proof (rule ccontr)
      assume "\<not> y < h"
      then have yh: "h \<le> y" by simp
      then have "h * w \<le> y * w" using w by (intro mult_right_mono) simp_all
      with True have "w * h \<le> x * h" by (simp add: mult.commute)
      then have "w \<le> x" using h by simp
      with yh False show False by simp
    qed
    ultimately show ?thesis using False True cd d
      by (simp add: follows_size_rule_def)
  next
    case no: False
    with cond have lt: "\<not> A \<le> of_int x / of_int y" by simp
    have cd: "d = round_aspect (of_int x / A)
                 (\<lambda>n. if n = 0 then 0 else \<bar>A - of_int x / of_int n\<bar>)" "c = x"
      using t False lt h y unfolding A_def by (auto simp: thumbnail_size_def Let_def)
    have e: "of_int x / A = (of_int (x * h) :: rat) / of_int w"
      using wr hr by (simp add: A_def)
    have xr: "(0 :: rat) \<le> of_int x" using x0 by simp
    note r = round_aspect_harmonic [of A "of_int x", OF A xr, folded cd(1)]
    have w0: "0 < w" using w by simp
    have "rounded_side d (x * h) w"
      using w0 d r(2) [unfolded e] r(3) [unfolded e] by (rule rounded_side_rat)
    moreover have "x < w"
    proof (rule ccontr)
      assume "\<not> x < w"
      then have xw: "w \<le> x" by simp
      then have "w * h \<le> x * h" using h by (intro mult_right_mono) simp_all
      with no have "w * h < y * w" by simp
      then have "w * h < w * y" by (simp add: mult.commute)
      then have "h < y" using w by simp
      with xw False show False by simp
    qed
    ultimately show ?thesis using False no cd c
      by (simp add: follows_size_rule_def)
  qed
qed

lemma ref_pil_rounds_aspect: "thumbnail_rounds_aspect ref_pil"
  unfolding thumbnail_rounds_aspect_def
proof (intro allI impI)
  fix im :: raster and box :: "int \<times> int" and im'
  assume a: "1 \<le> fst (Image_size ref_pil im) \<and> 1 \<le> snd (Image_size ref_pil im) \<and>
             0 \<le> fst box \<and> 0 \<le> snd box \<and> Image_thumbnail ref_pil im box = Inr im'"
  obtain w h where sz: "r_size im = (w, h)" by (cases "r_size im")
  obtain x y where box: "box = (x, y)" by (cases box)
  obtain c d where sz': "r_size im' = (c, d)" by (cases "r_size im'")
  from a sz box sz' have pos: "1 \<le> w" "1 \<le> h" and b0: "0 \<le> x" "0 \<le> y"
    and t: "thumbnail_size (w, h) (x, y) = Inr (c, d)" and cd: "1 \<le> c" "1 \<le> d"
    by (auto simp: ref_pil_def ref_thumbnail_def split: if_splits sum.splits)
  from thumbnail_size_follows [OF t pos b0 cd]
  show "follows_size_rule (Image_size ref_pil im) box (Image_size ref_pil im')"
    by (simp add: ref_pil_def sz sz' box)
qed


section \<open>Resizing and the aspect ratio\<close>

lemma rounded_side_err:
  assumes r: "rounded_side n num den" and den: "0 < den"
  shows "\<bar>n * den - num\<bar> \<le> den"
proof -
  from r have n: "1 \<le> n" and lo: "2 * (num - n * den) \<le> den"
    and hi: "(n * den - num) * (2 * n - 1) \<le> n * den"
    by (simp_all add: rounded_side_def)
  have "n * den - num \<le> den"
  proof (rule ccontr)
    assume "\<not> n * den - num \<le> den"
    then have "den + 1 \<le> n * den - num" by simp
    then have "(den + 1) * (2 * n - 1) \<le> (n * den - num) * (2 * n - 1)"
      using n by (intro mult_right_mono) simp_all
    with hi have "(den + 1) * (2 * n - 1) \<le> n * den" by simp
    moreover have "(den + 1) * (2 * n - 1) = n * den + (den * (n - 1) + (2 * n - 1))"
      by (simp add: algebra_simps)
    moreover have "0 \<le> den * (n - 1)" using den n by simp
    ultimately show False using n by simp
  qed
  with lo den show ?thesis by simp
qed

lemma rounded_side_le:
  assumes r: "rounded_side n (y * a) b" and y: "0 \<le> y" "y \<le> b" and a: "1 \<le> a" and b: "0 < b"
  shows "n \<le> a"
proof (rule ccontr)
  assume "\<not> n \<le> a"
  then have na: "a + 1 \<le> n" by simp
  from r have hi: "(n * b - y * a) * (2 * n - 1) \<le> n * b" by (simp add: rounded_side_def)
  have "y * a \<le> b * a" using y a by (intro mult_right_mono) simp_all
  moreover have "(a + 1) * b \<le> n * b" using na b by (intro mult_right_mono) simp_all
  ultimately have "b \<le> n * b - y * a" by (simp add: algebra_simps)
  then have "b * (2 * n - 1) \<le> (n * b - y * a) * (2 * n - 1)"
    using na a by (intro mult_right_mono) simp_all
  with hi have "b * (2 * n - 1) \<le> n * b" by simp
  then have "b * (2 * n - 1) \<le> b * n" by (simp add: mult.commute)
  then have "2 * n - 1 \<le> n" using b by (simp only: mult_le_cancel_left_pos)
  with na a show False by simp
qed

text \<open>A side that is an exact multiple is not changed by the rounding.\<close>

lemma rounded_side_exact:
  assumes r: "rounded_side n (k * den) den" and den: "0 < den" and k: "1 \<le> k"
  shows "n = k"
proof -
  from r have n: "1 \<le> n" and lo: "2 * (k * den - n * den) \<le> den"
    and hi: "(n * den - k * den) * (2 * n - 1) \<le> n * den"
    by (simp_all add: rounded_side_def)
  have "2 * (k - n) * den \<le> 1 * den" using lo by (simp add: algebra_simps)
  then have "2 * (k - n) \<le> 1" using den by (simp only: mult_le_cancel_right_pos)
  then have kn: "k \<le> n" by simp
  have "((n - k) * (2 * n - 1)) * den \<le> n * den" using hi by (simp add: algebra_simps)
  then have e: "(n - k) * (2 * n - 1) \<le> n" using den by (simp only: mult_le_cancel_right_pos)
  have "n \<le> k"
  proof (rule ccontr)
    assume "\<not> n \<le> k"
    then have "1 \<le> n - k" by simp
    then have "1 * (2 * n - 1) \<le> (n - k) * (2 * n - 1)"
      using n by (intro mult_right_mono) simp_all
    with e have "2 * n - 1 \<le> n" by simp
    then have "n \<le> 1" by simp
    with n have "n = 1" by simp
    with \<open>\<not> n \<le> k\<close> k show False by simp
  qed
  with kn show ?thesis by simp
qed

text \<open>
  Two resizes, the second to nine tenths of the box of the first. \<open>L\<close> and \<open>S\<close> are the
  longer and the shorter side of the original, \<open>M\<close> and \<open>B\<close> those of the first box; the
  first resize takes the shorter side to \<open>B\<close> and rounds the longer one; the second either
  takes the shorter side to \<open>9 * B div 10\<close> and rounds the longer one, or takes the longer
  side to \<open>9 * M div 10\<close> and rounds the shorter one.
\<close>

lemma short_then_short:
  assumes S: "1 \<le> S" "S \<le> L" and B: "1 \<le> B" and Y: "1 \<le> Y" "Y \<le> B"
    and r1: "rounded_side l1 (B * L) S" and r2: "rounded_side l2 (Y * l1) B"
  shows "\<bar>Y * L - l2 * S\<bar> \<le> L"
proof -
  from r1 have l1: "1 \<le> l1" and lo1: "2 * (B * L - l1 * S) \<le> S"
    and hi1: "(l1 * S - B * L) * (2 * l1 - 1) \<le> l1 * S"
    by (simp_all add: rounded_side_def)
  from r2 have l2: "1 \<le> l2" and lo2: "2 * (Y * l1 - l2 * B) \<le> B"
    and hi2: "(l2 * B - Y * l1) * (2 * l2 - 1) \<le> l2 * B"
    by (simp_all add: rounded_side_def)
  have L: "1 \<le> L" using S by simp
  have lower: "Y * L - l2 * S \<le> L"
  proof -
    have "2 * B * (Y * L - l2 * S) = Y * (2 * (B * L - l1 * S)) + S * (2 * (Y * l1 - l2 * B))"
      by (simp add: algebra_simps)
    also have "\<dots> \<le> Y * S + S * B"
      using lo1 lo2 Y S by (intro add_mono mult_left_mono) simp_all
    also have "\<dots> \<le> B * S + S * B" using Y S by (intro add_mono mult_right_mono) simp_all
    also have "\<dots> = 2 * B * S" by simp
    finally have "Y * L - l2 * S \<le> S" using B by (simp only: mult_le_cancel_left_pos)
    with S show ?thesis by simp
  qed
  have upper: "l2 * S \<le> (Y + 1) * L"
  proof (cases "l2 \<le> Y + 1")
    case True
    then have "l2 * S \<le> (Y + 1) * S" using S by (intro mult_right_mono) simp_all
    also have "\<dots> \<le> (Y + 1) * L" using S Y by (intro mult_left_mono) simp_all
    finally show ?thesis .
  next
    case False
    then have big2: "Y + 2 \<le> l2" by simp
    have l21: "l2 \<le> l1"
      using r2 Y l1 B by (intro rounded_side_le [of l2 Y l1 B]) simp_all
    define u where "u = 2 * l1 - 2"
    define v where "v = 2 * l2 - 2"
    have u: "2 * Y + 2 \<le> u" and v: "2 * Y + 2 \<le> v" using big2 l21 by (simp_all add: u_def v_def)
    have u0: "0 < u" and v0: "0 < v" using u v Y by simp_all
    have i: "l2 * B * v \<le> Y * l1 * (v + 1)"
      using hi2 by (simp add: v_def algebra_simps)
    have ii: "l1 * S * u \<le> B * L * (u + 1)"
      using hi1 by (simp add: u_def algebra_simps)
    have "B * (l2 * S * (v * u)) = (l2 * B * v) * (S * u)" by (simp add: algebra_simps)
    also have "\<dots> \<le> (Y * l1 * (v + 1)) * (S * u)"
      using i S u0 by (intro mult_right_mono) simp_all
    also have "\<dots> = (Y * (v + 1)) * (l1 * S * u)" by (simp add: algebra_simps)
    also have "\<dots> \<le> (Y * (v + 1)) * (B * L * (u + 1))"
      using ii Y v0 by (intro mult_left_mono) simp_all
    also have "\<dots> = B * (Y * (v + 1) * (u + 1) * L)" by (simp add: algebra_simps)
    finally have a: "l2 * S * (v * u) \<le> Y * (v + 1) * (u + 1) * L"
      using B by (simp only: mult_le_cancel_left_pos)
    have "Y * (u + v + 1) \<le> u * v"
    proof -
      have a1: "(2 * Y + 2) * u \<le> v * u" using v u0 by (intro mult_right_mono) simp_all
      have a2: "(2 * Y + 2) * v \<le> u * v" using u v0 by (intro mult_right_mono) simp_all
      have "2 * (Y * u + Y * v + (u + v)) = (2 * Y + 2) * u + (2 * Y + 2) * v"
        by (simp add: algebra_simps)
      also have "\<dots> \<le> v * u + u * v" using a1 a2 by (rule add_mono)
      also have "\<dots> = 2 * (u * v)" by (simp add: mult.commute)
      finally have "Y * u + Y * v + (u + v) \<le> u * v" by simp
      moreover have "Y \<le> u + v" using u v Y by simp
      ultimately show ?thesis by (simp add: algebra_simps)
    qed
    then have "Y * (v + 1) * (u + 1) \<le> (Y + 1) * (v * u)" by (simp add: algebra_simps)
    then have "Y * (v + 1) * (u + 1) * L \<le> (Y + 1) * (v * u) * L"
      using L by (intro mult_right_mono) simp_all
    with a have "l2 * S * (v * u) \<le> (Y + 1) * (v * u) * L" by simp
    then have "(v * u) * (l2 * S) \<le> (v * u) * ((Y + 1) * L)" by (simp add: algebra_simps)
    moreover have "0 < v * u" using u0 v0 by simp
    ultimately show ?thesis by (simp only: mult_le_cancel_left_pos)
  qed
  from lower upper show ?thesis by (simp add: algebra_simps abs_le_iff)
qed

lemma short_then_long:
  assumes S: "1 \<le> S" "S \<le> L" and B: "1 \<le> B" and pin: "B * L \<le> M * S"
    and r1: "rounded_side l1 (B * L) S"
    and X: "X = 9 * M div 10" "1 \<le> X" "X < l1" and fit: "s2 \<le> 9 * B div 10"
    and r2: "rounded_side s2 (X * B) l1"
  shows "\<bar>s2 * L - X * S\<bar> \<le> L"
proof -
  from r1 have l1: "1 \<le> l1" and hi1: "(l1 * S - B * L) * (2 * l1 - 1) \<le> l1 * S"
    by (simp_all add: rounded_side_def)
  from r2 have s2: "1 \<le> s2" and lo2: "2 * (X * B - s2 * l1) \<le> l1"
    by (simp_all add: rounded_side_def)
  have L: "1 \<le> L" using S by simp
  have upper: "s2 * L \<le> X * S + L"
  proof -
    have "10 * s2 \<le> 9 * B" using fit by simp
    then have "10 * s2 * L \<le> 9 * B * L" using L by (intro mult_right_mono) simp_all
    also have "\<dots> \<le> 9 * (M * S)" using pin by simp
    also have "\<dots> \<le> (10 * X + 9) * S"
    proof -
      have "9 * M \<le> 10 * X + 9" unfolding X(1) by simp
      then have "9 * M * S \<le> (10 * X + 9) * S" using S by (intro mult_right_mono) simp_all
      then show ?thesis by (simp add: algebra_simps)
    qed
    also have "\<dots> = 10 * (X * S) + 9 * S" by (simp add: algebra_simps)
    also have "\<dots> \<le> 10 * (X * S) + 10 * L" using S by simp
    finally show ?thesis by simp
  qed
  have lower: "X * S \<le> (s2 + 1) * L"
  proof (cases "X \<le> s2 + 1")
    case True
    then have "X * S \<le> (s2 + 1) * S" using S by (intro mult_right_mono) simp_all
    also have "\<dots> \<le> (s2 + 1) * L" using S s2 by (intro mult_left_mono) simp_all
    finally show ?thesis .
  next
    case False
    then have big: "s2 + 3 \<le> l1" using X by simp
    define u where "u = 2 * l1 - 2"
    have u0: "0 < u" using big s2 by (simp add: u_def)
    have i: "2 * X * B \<le> (2 * s2 + 1) * l1" using lo2 by (simp add: algebra_simps)
    have ii: "l1 * S * u \<le> B * L * (u + 1)" using hi1 by (simp add: u_def algebra_simps)
    have "B * (2 * X * S * u) = (2 * X * B) * (S * u)" by (simp add: algebra_simps)
    also have "\<dots> \<le> ((2 * s2 + 1) * l1) * (S * u)"
      using i S u0 by (intro mult_right_mono) simp_all
    also have "\<dots> = (2 * s2 + 1) * (l1 * S * u)" by (simp add: algebra_simps)
    also have "\<dots> \<le> (2 * s2 + 1) * (B * L * (u + 1))"
      using ii s2 by (intro mult_left_mono) simp_all
    also have "\<dots> = B * ((2 * s2 + 1) * (u + 1) * L)" by (simp add: algebra_simps)
    finally have a: "2 * X * S * u \<le> (2 * s2 + 1) * (u + 1) * L"
      using B by (simp only: mult_le_cancel_left_pos)
    have "2 * s2 + 1 \<le> u" using big by (simp add: u_def)
    then have "(2 * s2 + 1) * (u + 1) \<le> 2 * (s2 + 1) * u" by (simp add: algebra_simps)
    then have "(2 * s2 + 1) * (u + 1) * L \<le> 2 * (s2 + 1) * u * L"
      using L by (intro mult_right_mono) simp_all
    with a have "2 * X * S * u \<le> 2 * (s2 + 1) * u * L" by simp
    then have "(2 * u) * (X * S) \<le> (2 * u) * ((s2 + 1) * L)" by (simp add: algebra_simps)
    moreover have "0 < 2 * u" using u0 by simp
    ultimately show ?thesis by (simp only: mult_le_cancel_left_pos)
  qed
  from lower upper show ?thesis by (simp add: algebra_simps abs_le_iff)
qed

lemma two_resizes_aspect:
  assumes S: "1 \<le> S" "S \<le> L" and pin: "B * L \<le> M * S"
    and st1: "(l1, s1) = (L, S) \<or> (s1 = B \<and> 1 \<le> B \<and> rounded_side l1 (B * L) S)"
    and st2: "(l2, s2) = (l1, s1) \<or>
              (s2 = 9 * B div 10 \<and> 1 \<le> s2 \<and> rounded_side l2 (s2 * l1) s1) \<or>
              (l2 = 9 * M div 10 \<and> 1 \<le> l2 \<and> l2 < l1 \<and> s2 \<le> 9 * B div 10 \<and>
               rounded_side s2 (l2 * s1) l1)"
  shows "\<bar>s2 * L - l2 * S\<bar> \<le> L"
proof -
  have L: "0 < L" and S0: "0 < S" using S by simp_all
  from st1 show ?thesis
  proof (elim disjE conjE)
    assume e: "(l1, s1) = (L, S)"
    from st2 show ?thesis
    proof (elim disjE conjE)
      assume "(l2, s2) = (l1, s1)"
      with e L show ?thesis by (simp add: mult.commute)
    next
      assume "rounded_side l2 (s2 * l1) s1"
      with e have "rounded_side l2 (s2 * L) S" by simp
      from rounded_side_err [OF this S0] S show ?thesis by (simp add: abs_minus_commute)
    next
      assume "rounded_side s2 (l2 * s1) l1"
      with e have "rounded_side s2 (l2 * S) L" by simp
      from rounded_side_err [OF this L] show ?thesis by simp
    qed
  next
    assume s1: "s1 = B" and B: "1 \<le> B" and r1: "rounded_side l1 (B * L) S"
    from st2 show ?thesis
    proof (elim disjE conjE)
      assume "(l2, s2) = (l1, s1)"
      with rounded_side_err [OF r1 S0] s1 S show ?thesis by (simp add: abs_minus_commute)
    next
      assume a: "s2 = 9 * B div 10" "1 \<le> s2" "rounded_side l2 (s2 * l1) s1"
      have "s2 \<le> B" using a(1) B by simp
      with short_then_short [OF S B a(2) _ r1, of l2] a(3) s1 show ?thesis by simp
    next
      assume a: "l2 = 9 * M div 10" "1 \<le> l2" "l2 < l1" "s2 \<le> 9 * B div 10"
        "rounded_side s2 (l2 * s1) l1"
      from short_then_long [OF S B pin r1 a(1) a(2) a(3) a(4)] a(5) s1 show ?thesis by simp
    qed
  qed
qed

lemma follows_size_rule_cases:
  assumes "follows_size_rule (a, b) (x, y) (c, d)"
  obtains (same) "c = a" "d = b"
  | (height) "y * a \<le> x * b" "d = y" "1 \<le> d" "d < b" "rounded_side c (y * a) b"
  | (width) "x * b < y * a" "c = x" "1 \<le> c" "c < a" "rounded_side d (x * b) a"
  using assms by (auto simp: follows_size_rule_def split: if_splits)

lemma follows_size_rule_same:
  assumes "follows_size_rule (a, b) (x, y) (c, d)" "a \<le> x" "b \<le> y"
  shows "(c, d) = (a, b)"
  using assms by (simp add: follows_size_rule_def)

text \<open>A resize keeps a positive size and enlarges no side.\<close>

lemma follows_size_rule_bounds:
  assumes r: "follows_size_rule (a, b) (x, y) (c, d)" and a: "1 \<le> a" and b: "1 \<le> b"
  shows "1 \<le> c \<and> c \<le> a \<and> 1 \<le> d \<and> d \<le> b"
  using r
proof (cases rule: follows_size_rule_cases)
  case same
  then show ?thesis using a b by simp
next
  case height
  have "c \<le> a" using height a b by (intro rounded_side_le [of c y a b]) simp_all
  moreover have "1 \<le> c" using height(5) by (simp add: rounded_side_def)
  ultimately show ?thesis using height by simp
next
  case width
  have "d \<le> b" using width a b by (intro rounded_side_le [of d x b a]) simp_all
  moreover have "1 \<le> d" using width(5) by (simp add: rounded_side_def)
  ultimately show ?thesis using width by simp
qed

lemma one_resize_aspect:
  assumes r: "follows_size_rule (w, h) (x, y) (a, b)" and w: "1 \<le> w" and h: "1 \<le> h"
  shows "aspect_within 1 (a, b) (w, h)"
  using r
proof (cases rule: follows_size_rule_cases)
  case same
  then show ?thesis using w by (simp add: aspect_within_def mult.commute)
next
  case height
  from rounded_side_err [OF height(5)] h have "\<bar>a * h - y * w\<bar> \<le> h" by simp
  with height show ?thesis by (simp add: aspect_within_def)
next
  case width
  from rounded_side_err [OF width(5)] w have "\<bar>b * w - x * h\<bar> \<le> w" by simp
  then have "\<bar>x * h - b * w\<bar> \<le> w" by (simp add: abs_minus_commute)
  with width show ?thesis by (simp add: aspect_within_def)
qed

text \<open>
  The two resizes of a run with fallback: the first to the requested box, whose computed
  side does not exceed its proportional length, the second to nine tenths of that box.
\<close>

lemma fallback_resize_aspect:
  assumes w: "1 \<le> w" and h: "1 \<le> h"
    and box: "if h \<le> w then bw = M \<and> bh * w \<le> M * h else bh = M \<and> bw * h \<le> M * w"
    and r1: "follows_size_rule (w, h) (bw, bh) (a, b)"
    and r2: "follows_size_rule (a, b) (9 * bw div 10, 9 * bh div 10) (c, d)"
    and fit: "c \<le> 9 * bw div 10" "d \<le> 9 * bh div 10"
  shows "aspect_within 1 (c, d) (w, h)"
proof (cases "h \<le> w")
  case True
  with box have bw: "bw = M" and pin: "bh * w \<le> M * h" by simp_all
  have st1: "(a, b) = (w, h) \<or> (b = bh \<and> 1 \<le> bh \<and> rounded_side a (bh * w) h)"
    using r1
  proof (cases rule: follows_size_rule_cases)
    case same
    then show ?thesis by simp
  next
    case height
    then show ?thesis by simp
  next
    case width
    with pin bw show ?thesis by simp
  qed
  have st2: "(c, d) = (a, b) \<or>
             (d = 9 * bh div 10 \<and> 1 \<le> d \<and> rounded_side c (d * a) b) \<or>
             (c = 9 * M div 10 \<and> 1 \<le> c \<and> c < a \<and> d \<le> 9 * bh div 10 \<and>
              rounded_side d (c * b) a)"
    using r2
  proof (cases rule: follows_size_rule_cases)
    case same
    then show ?thesis by simp
  next
    case height
    then show ?thesis by simp
  next
    case width
    with fit bw show ?thesis by simp
  qed
  from two_resizes_aspect [OF h True pin st1 st2]
  have "\<bar>d * w - c * h\<bar> \<le> w" .
  then have "\<bar>c * h - d * w\<bar> \<le> w" by (simp add: abs_minus_commute)
  with True show ?thesis by (simp add: aspect_within_def)
next
  case False
  then have hw: "w \<le> h" by simp
  from False box have bh: "bh = M" and pin: "bw * h \<le> M * w" by simp_all
  have st1: "(b, a) = (h, w) \<or> (a = bw \<and> 1 \<le> bw \<and> rounded_side b (bw * h) w)"
    using r1
  proof (cases rule: follows_size_rule_cases)
    case same
    then show ?thesis by simp
  next
    case height
    with pin bh have eq: "M * w = bw * h" by simp
    have M: "1 \<le> M" using height bh by simp
    have "0 < bw * h" using eq M w by (metis mult_pos_pos less_le_trans zero_less_one)
    then have bw1: "1 \<le> bw" using h by (simp add: zero_less_mult_iff)
    have "rounded_side a (bw * h) h" using height(5) bh eq by simp
    then have "a = bw" using h bw1 by (intro rounded_side_exact [of a bw h]) simp_all
    moreover have "rounded_side b (bw * h) w"
      using height(2) bh M w by (simp add: eq [symmetric] rounded_side_def)
    ultimately show ?thesis using bw1 by simp
  next
    case width
    then show ?thesis by simp
  qed
  have st2: "(d, c) = (b, a) \<or>
             (c = 9 * bw div 10 \<and> 1 \<le> c \<and> rounded_side d (c * b) a) \<or>
             (d = 9 * M div 10 \<and> 1 \<le> d \<and> d < b \<and> c \<le> 9 * bw div 10 \<and>
              rounded_side c (d * a) b)"
    using r2
  proof (cases rule: follows_size_rule_cases)
    case same
    then show ?thesis by simp
  next
    case height
    with fit bh show ?thesis by simp
  next
    case width
    then show ?thesis by simp
  qed
  from two_resizes_aspect [OF w hw pin st1 st2]
  have "\<bar>c * h - d * w\<bar> \<le> h" .
  with False show ?thesis by (simp add: aspect_within_def)
qed

lemma le_div_mult:
  fixes k n w :: int
  assumes "k \<le> n div w" "0 < w"
  shows "k * w \<le> n"
proof -
  have "k * w \<le> (n div w) * w" using assms by (intro mult_right_mono) simp_all
  moreover have "n = (n div w) * w + n mod w" by simp
  moreover have "0 \<le> n mod w" using assms(2) by simp
  ultimately show ?thesis by linarith
qed


section \<open>Runs that return\<close>

text \<open>After any stage the buffer holds the last save, made from the current image.\<close>

lemma run_invariant:
  assumes "compress_image_run P content md t m M = Inr s"
  shows "original_size s = int (length content)"
    and "saves s \<noteq> []"
    and "fst (last (saves s)) = Image_size P (img s)"
    and "Image_save P (img s) (snd (last (saves s))) = Inr (output_bytes s)"
proof -
  from assms obtain s1 s2 s3 where
    r1: "first_encode P content md M = Inr s1" and
    r2: "reduce_quality P m s1 = Inr s2" and
    r3: "shrink_dimensions P m s2 = Inr s3" and
    r4: "boost_quality P t M s3 = Inr s"
    by (rule compress_image_run_Inr)
  from r1 have i1: "original_size s1 = int (length content)" "saves s1 \<noteq> []"
    "fst (last (saves s1)) = Image_size P (img s1)"
    "Image_save P (img s1) (snd (last (saves s1))) = Inr (output_bytes s1)"
    by (auto elim!: first_encode_Inr)
  from reduce_quality_Inr [OF r2] i1
  have i2: "original_size s2 = int (length content)" "saves s2 \<noteq> []"
    "fst (last (saves s2)) = Image_size P (img s2)"
    "Image_save P (img s2) (snd (last (saves s2))) = Inr (output_bytes s2)"
    by auto
  have i3: "original_size s3 = int (length content) \<and> saves s3 \<noteq> [] \<and>
    fst (last (saves s3)) = Image_size P (img s3) \<and>
    Image_save P (img s3) (snd (last (saves s3))) = Inr (output_bytes s3)"
  proof (cases "tell s2 > 150 * 1024")
    case True
    with shrink_dimensions_Inr [OF r3] obtain a b where
      sv: "Image_save P (img s3) m = Inr (output_bytes s3)" and
      e: "s3 = s2\<lparr>img := img s3, new_dimensions := Some (a, b),
                   output_bytes := output_bytes s3,
                   saves := saves s2 @ [(Image_size P (img s3), m)]\<rparr>"
      by auto
    have "original_size s3 = original_size s2"
      "saves s3 = saves s2 @ [(Image_size P (img s3), m)]"
      by (subst e, simp)+
    then show ?thesis using sv i2 by simp
  next
    case False
    with shrink_dimensions_Inr [OF r3] have "s3 = s2" by simp
    then show ?thesis using i2 by simp
  qed
  have "original_size s = int (length content) \<and> saves s \<noteq> [] \<and>
    fst (last (saves s)) = Image_size P (img s) \<and>
    Image_save P (img s) (snd (last (saves s))) = Inr (output_bytes s)"
  proof (cases "tell s3 < t * 1024 \<and> quality s3 < M")
    case True
    with boost_quality_Inr [OF r4] have
      sv: "Image_save P (img s3) (min (quality s3 + 10) M) = Inr (output_bytes s)" and
      e: "s = s3\<lparr>quality := min (quality s3 + 10) M, output_bytes := output_bytes s,
                  saves := saves s3 @ [(Image_size P (img s3), min (quality s3 + 10) M)]\<rparr>"
      by auto
    have "original_size s = original_size s3" "img s = img s3"
      "saves s = saves s3 @ [(Image_size P (img s3), min (quality s3 + 10) M)]"
      by (subst e, simp)+
    then show ?thesis using sv i3 by simp
  next
    case False
    with boost_quality_Inr [OF r4] have "s = s3" by simp
    then show ?thesis using i3 by simp
  qed
  then show "original_size s = int (length content)"
    and "saves s \<noteq> []"
    and "fst (last (saves s)) = Image_size P (img s)"
    and "Image_save P (img s) (snd (last (saves s))) = Inr (output_bytes s)"
    by simp_all
qed

text \<open>The shape of a run that returns.\<close>

lemma run_shape:
  assumes "compress_image_run P content md t m M = Inr s"
  obtains im0 s2 where "open_rgb P content = Inr im0"
    and "Image_size P im0 = (width s, height s)"
    and "target_box md (width s) (height s) = Inr (max_dimensions s)"
    and "Image_thumbnail P im0 (max_dimensions s) = Inr (img s2)"
    and "and_then (first_encode P content md M) (reduce_quality P m) = Inr s2"
    and "if tell s2 > 150 * 1024
         then \<exists>a b boost. shrink_dim (fst (max_dimensions s)) = Inr a \<and>
                shrink_dim (snd (max_dimensions s)) = Inr b \<and>
                new_dimensions s = Some (a, b) \<and>
                Image_thumbnail P (img s2) (a, b) = Inr (img s) \<and>
                saves s = saves s2 @ [(Image_size P (img s), m)] @ boost \<and>
                length boost \<le> 1
         else new_dimensions s = None \<and> img s = img s2"
proof -
  from assms obtain s1 s2 s3 where
    r1: "first_encode P content md M = Inr s1" and
    r2: "reduce_quality P m s1 = Inr s2" and
    r3: "shrink_dimensions P m s2 = Inr s3" and
    r4: "boost_quality P t M s3 = Inr s"
    by (rule compress_image_run_Inr)
  from r1 obtain im0 where o: "open_rgb P content = Inr im0"
    and sz: "Image_size P im0 = (width s1, height s1)"
    and tb: "target_box md (width s1) (height s1) = Inr (max_dimensions s1)"
    and th: "Image_thumbnail P im0 (max_dimensions s1) = Inr (img s1)"
    and nd: "new_dimensions s1 = None"
    by (rule first_encode_Inr)
  from reduce_quality_Inr [OF r2]
  have f2: "img s2 = img s1" "width s2 = width s1" "height s2 = height s1"
    "max_dimensions s2 = max_dimensions s1" "new_dimensions s2 = new_dimensions s1"
    by simp_all
  have f4: "img s = img s3 \<and> width s = width s3 \<and> height s = height s3 \<and>
    max_dimensions s = max_dimensions s3 \<and> new_dimensions s = new_dimensions s3 \<and>
    (\<exists>boost. saves s = saves s3 @ boost \<and> length boost \<le> 1)"
  proof (cases "tell s3 < t * 1024 \<and> quality s3 < M")
    case True
    with boost_quality_Inr [OF r4] have
      e: "s = s3\<lparr>quality := min (quality s3 + 10) M, output_bytes := output_bytes s,
                  saves := saves s3 @ [(Image_size P (img s3), min (quality s3 + 10) M)]\<rparr>"
      by auto
    have "img s = img s3" "width s = width s3" "height s = height s3"
      "max_dimensions s = max_dimensions s3" "new_dimensions s = new_dimensions s3"
      "saves s = saves s3 @ [(Image_size P (img s3), min (quality s3 + 10) M)]"
      by (subst e, simp)+
    then show ?thesis by simp
  next
    case False
    with boost_quality_Inr [OF r4] have "s = s3" by simp
    then show ?thesis by simp
  qed
  have f3: "width s3 = width s2 \<and> height s3 = height s2 \<and>
    max_dimensions s3 = max_dimensions s2 \<and>
    (if tell s2 > 150 * 1024
     then \<exists>a b. shrink_dim (fst (max_dimensions s2)) = Inr a \<and>
            shrink_dim (snd (max_dimensions s2)) = Inr b \<and>
            new_dimensions s3 = Some (a, b) \<and>
            Image_thumbnail P (img s2) (a, b) = Inr (img s3) \<and>
            saves s3 = saves s2 @ [(Image_size P (img s3), m)]
     else new_dimensions s3 = new_dimensions s2 \<and> img s3 = img s2)"
  proof (cases "tell s2 > 150 * 1024")
    case True
    with shrink_dimensions_Inr [OF r3] obtain a b where
      ab: "shrink_dim (fst (max_dimensions s2)) = Inr a"
        "shrink_dim (snd (max_dimensions s2)) = Inr b"
        "Image_thumbnail P (img s2) (a, b) = Inr (img s3)" and
      e: "s3 = s2\<lparr>img := img s3, new_dimensions := Some (a, b),
                   output_bytes := output_bytes s3,
                   saves := saves s2 @ [(Image_size P (img s3), m)]\<rparr>"
      by auto
    have "width s3 = width s2" "height s3 = height s2"
      "max_dimensions s3 = max_dimensions s2" "new_dimensions s3 = Some (a, b)"
      "saves s3 = saves s2 @ [(Image_size P (img s3), m)]"
      by (subst e, simp)+
    with ab True show ?thesis by auto
  next
    case False
    with shrink_dimensions_Inr [OF r3] have "s3 = s2" by simp
    with False show ?thesis by simp
  qed
  have c: "and_then (first_encode P content md M) (reduce_quality P m) = Inr s2"
    using r1 r2 by (simp add: and_then_def)
  have fin: "if tell s2 > 150 * 1024
         then \<exists>a b boost. shrink_dim (fst (max_dimensions s)) = Inr a \<and>
                shrink_dim (snd (max_dimensions s)) = Inr b \<and>
                new_dimensions s = Some (a, b) \<and>
                Image_thumbnail P (img s2) (a, b) = Inr (img s) \<and>
                saves s = saves s2 @ [(Image_size P (img s), m)] @ boost \<and>
                length boost \<le> 1
         else new_dimensions s = None \<and> img s = img s2"
    using f3 f4 f2 nd by (auto split: if_splits)
  show thesis
  proof (rule that [of im0 s2])
    show "open_rgb P content = Inr im0" by (rule o)
    show "Image_size P im0 = (width s, height s)" using sz f2 f3 f4 by simp
    show "target_box md (width s) (height s) = Inr (max_dimensions s)"
      using tb f2 f3 f4 by simp
    show "Image_thumbnail P im0 (max_dimensions s) = Inr (img s2)"
      using th f2 f3 f4 by simp
    show "and_then (first_encode P content md M) (reduce_quality P m) = Inr s2" by (rule c)
    show "if tell s2 > 150 * 1024
         then \<exists>a b boost. shrink_dim (fst (max_dimensions s)) = Inr a \<and>
                shrink_dim (snd (max_dimensions s)) = Inr b \<and>
                new_dimensions s = Some (a, b) \<and>
                Image_thumbnail P (img s2) (a, b) = Inr (img s) \<and>
                saves s = saves s2 @ [(Image_size P (img s), m)] @ boost \<and>
                length boost \<le> 1
         else new_dimensions s = None \<and> img s = img s2" by (rule fin)
  qed
qed


section \<open>The quality attempts\<close>

text \<open>Every attempt of the loop is 5 below the one before.\<close>

lemma reduce_quality_steps:
  "reduce_quality P m s = Inr s' \<Longrightarrow>
     \<exists>n. quality s' = quality s - 5 * int n \<and>
         map snd (saves s') =
           map snd (saves s) @ map (\<lambda>i. quality s - 5 * (int i + 1)) [0..<n] \<and>
         (0 < n \<longrightarrow> m < quality s' + 5)"
proof (induction P m s rule: reduce_quality.induct)
  case (1 P m s)
  show ?case
  proof (cases "tell s > 150 * 1024 \<and> quality s > m")
    case False
    then have "reduce_quality P m s = Inr s" by (rule reduce_quality_stop)
    with "1.prems" have "s' = s" by simp
    then have "quality s' = quality s - 5 * int 0 \<and>
         map snd (saves s') =
           map snd (saves s) @ map (\<lambda>i. quality s - 5 * (int i + 1)) [0..<0] \<and>
         (0 < (0::nat) \<longrightarrow> m < quality s' + 5)" by simp
    then show ?thesis ..
  next
    case True
    from True have step: "reduce_quality P m s =
     (case save_jpeg P (quality s - 5) (s\<lparr>quality := quality s - 5\<rparr>) of
        Inl e \<Rightarrow> Inl e
      | Inr s' \<Rightarrow> reduce_quality P m s')"
      by (intro reduce_quality_step) simp_all
    from "1.prems" obtain s1 where
      s1: "save_jpeg P (quality s - 5) (s\<lparr>quality := quality s - 5\<rparr>) = Inr s1"
      and r: "reduce_quality P m s1 = Inr s'"
      unfolding step by (auto split: sum.splits)
    from save_jpeg_Inr(1) [OF s1]
    have e: "s1 = s\<lparr>quality := quality s - 5, output_bytes := output_bytes s1,
                    saves := saves s @ [(Image_size P (img s), quality s - 5)]\<rparr>"
      by simp
    have f: "quality s1 = quality s - 5"
      "saves s1 = saves s @ [(Image_size P (img s), quality s - 5)]"
      by (subst e, simp)+
    from "1.IH" [OF True s1 r] obtain n where
      n: "quality s' = quality s1 - 5 * int n"
        "map snd (saves s') =
           map snd (saves s1) @ map (\<lambda>i. quality s1 - 5 * (int i + 1)) [0..<n]"
        "0 < n \<longrightarrow> m < quality s' + 5"
      by blast
    have shift: "map (\<lambda>i. quality s - 5 * (int i + 1)) [0..<Suc n]
             = (quality s - 5) # map (\<lambda>i. quality s - 5 - 5 * (int i + 1)) [0..<n]"
      by (simp add: upt_conv_Cons map_Suc_upt [symmetric] algebra_simps del: upt_Suc)
    have "quality s' = quality s - 5 * int (Suc n)" using n(1) f by simp
    moreover have "map snd (saves s') =
           map snd (saves s) @ map (\<lambda>i. quality s - 5 * (int i + 1)) [0..<Suc n]"
      unfolding shift using n(2) f by simp
    moreover have "m < quality s' + 5"
    proof (cases "0 < n")
      case True
      with n(3) show ?thesis by simp
    next
      case False
      with n(1) f \<open>tell s > 150 * 1024 \<and> quality s > m\<close> show ?thesis by simp
    qed
    ultimately have "quality s' = quality s - 5 * int (Suc n) \<and>
         map snd (saves s') =
           map snd (saves s) @ map (\<lambda>i. quality s - 5 * (int i + 1)) [0..<Suc n] \<and>
         (0 < Suc n \<longrightarrow> m < quality s' + 5)" by simp
    then show ?thesis ..
  qed
qed

text \<open>
  When \<open>max_quality - min_quality\<close> is a multiple of 5, as for the defaults 75 and 90, no
  save of a run that returns leaves \<open>[min_quality, max_quality]\<close>.
\<close>

lemma aligned_qualities_in_range:
  assumes run: "compress_image_run P content md t m M = Inr s"
    and mM: "m \<le> M" and al: "(M - m) mod 5 = 0"
  shows "\<forall>q \<in> set (map snd (saves s)). m \<le> q \<and> q \<le> M"
proof -
  from run obtain s1 s2 s3 where
    r1: "first_encode P content md M = Inr s1" and
    r2: "reduce_quality P m s1 = Inr s2" and
    r3: "shrink_dimensions P m s2 = Inr s3" and
    r4: "boost_quality P t M s3 = Inr s"
    by (rule compress_image_run_Inr)
  from r1 have i1: "map snd (saves s1) = [M]" "quality s1 = M"
    by (auto elim!: first_encode_Inr)
  from reduce_quality_steps [OF r2] obtain n where
    n: "quality s2 = quality s1 - 5 * int n"
      "map snd (saves s2) =
         map snd (saves s1) @ map (\<lambda>i. quality s1 - 5 * (int i + 1)) [0..<n]"
      "0 < n \<longrightarrow> m < quality s2 + 5"
    by blast
  have q2: "m \<le> quality s2 \<and> quality s2 \<le> M"
  proof (cases "0 < n")
    case False
    with n(1) i1 mM show ?thesis by simp
  next
    case True
    with n(3) have "m < M - 5 * int n + 5" using n(1) i1 by simp
    moreover have "(M - 5 * int n - m) mod 5 = 0" using al by presburger
    ultimately have "m \<le> M - 5 * int n" by presburger
    then show ?thesis using n(1) i1 by simp
  qed
  have i2: "\<forall>q \<in> set (map snd (saves s2)). m \<le> q \<and> q \<le> M"
  proof
    fix q assume "q \<in> set (map snd (saves s2))"
    then consider "q = M" | i where "i < n" "q = M - 5 * (int i + 1)"
      unfolding n(2) i1 by auto
    then show "m \<le> q \<and> q \<le> M"
    proof cases
      case 1
      with mM show ?thesis by simp
    next
      case 2
      then have "M - 5 * int n \<le> q" "q \<le> M" by simp_all
      with q2 n(1) i1 show ?thesis by simp
    qed
  qed
  have i3: "(\<forall>q \<in> set (map snd (saves s3)). m \<le> q \<and> q \<le> M) \<and> quality s3 = quality s2"
  proof (cases "tell s2 > 150 * 1024")
    case True
    with shrink_dimensions_Inr [OF r3] obtain a b where
      e: "s3 = s2\<lparr>img := img s3, new_dimensions := Some (a, b),
                   output_bytes := output_bytes s3,
                   saves := saves s2 @ [(Image_size P (img s3), m)]\<rparr>"
      by auto
    have "saves s3 = saves s2 @ [(Image_size P (img s3), m)]" "quality s3 = quality s2"
      by (subst e, simp)+
    with i2 mM show ?thesis by auto
  next
    case False
    with shrink_dimensions_Inr [OF r3] have "s3 = s2" by simp
    with i2 show ?thesis by simp
  qed
  show ?thesis
  proof (cases "tell s3 < t * 1024 \<and> quality s3 < M")
    case True
    with boost_quality_Inr [OF r4] have
      e: "s = s3\<lparr>quality := min (quality s3 + 10) M, output_bytes := output_bytes s,
                  saves := saves s3 @ [(Image_size P (img s3), min (quality s3 + 10) M)]\<rparr>"
      by auto
    have "saves s = saves s3 @ [(Image_size P (img s3), min (quality s3 + 10) M)]"
      by (subst e, simp)
    with i3 q2 show ?thesis by auto
  next
    case False
    with boost_quality_Inr [OF r4] have "s = s3" by simp
    with i3 show ?thesis by simp
  qed
qed

text \<open>
  C2 (code defect). The claim: every save uses a quality in \<open>[min_quality, max_quality]\<close>,
  and the loop never tries a quality below \<open>min_quality\<close>. The loop of line 66 subtracts 5
  without clamping, so when \<open>max_quality - min_quality\<close> is not a multiple of 5 its last
  attempt is below \<open>min_quality\<close>: with the bounds 75 and 88 on an image that stays above
  150 KiB, the saves are made at 88, 83, 78, 73 and then (line 78) 75.
\<close>

theorem loop_undershoots_min_quality:
  "qualities (compress_image_run ref_pil (rgb_file 4000 2000) 2000 100 75 88)
     = [88, 83, 78, 73, 75]"
  by (simp add: run_defs qualities_def save_calls_def
        scale_2000_4000_2000 shrink_2000 shrink_1000)

text \<open>
  C6 (code defect, the same one as C2). The claim: when the boost of line 81 follows the
  dimension fallback, the quality it starts from is \<open>min_quality\<close>, so it saves at
  \<open>min (min_quality + 10) max_quality\<close>. Line 78 saves at \<open>min_quality\<close> without assigning
  \<open>quality\<close>, which still holds the last value of the loop. With the bounds 75 and 88 and a
  target of 140 KB the boost saves at 83 = min (73 + 10) 88, not at 85.
\<close>

theorem boost_after_shrink_starts_below_min_quality:
  "save_calls (compress_image_run ref_pil (rgb_file 1200 720) 600 140 75 88)
     = [((600, 360), 88), ((600, 360), 83), ((600, 360), 78), ((600, 360), 73),
        ((540, 324), 75), ((540, 324), 83)]"
  by (simp add: run_defs save_calls_def scale_600_1200_720 shrink_600 shrink_360)


section \<open>The upload endpoint\<close>

text \<open>
  C8. When the engine raises, on a decode or an encode failure alike, \<^verbatim>\<open>upload_image\<close> raises
  too and the state is untouched: no file is written and no record is inserted. (The
  request is rejected earlier still when the extension or a parameter is refused.)
\<close>

theorem upload_atomic_on_engine_failure:
  assumes "fst (compress_image P f max_dimension target_size_kb 75 90) = Inl e"
  shows "upload_image P uid now w f max_dimension target_size_kb \<in>
           {(Inl (HTTPException 400 ''Unsupported file format''), w),
            (Inl (HTTPException 400 ''Invalid parameters''), w),
            (Inl e, w)}"
  using assms by (simp add: upload_image_def)

text \<open>Witness for C8: three bytes that are no image.\<close>

theorem upload_atomic_on_engine_failure_witness:
  "fst (compress_image ref_pil (upload ''x.png'' [1, 2, 3]) 500 100 75 90)
     = Inl (CodecError ''cannot identify image file'') \<and>
   upload_image ref_pil ''id'' ''now'' \<lparr>files = Map.empty, collection = []\<rparr>
       (upload ''x.png'' [1, 2, 3]) 500 100 \<in>
     {(Inl (HTTPException 400 ''Unsupported file format''),
         \<lparr>files = Map.empty, collection = []\<rparr>),
      (Inl (HTTPException 400 ''Invalid parameters''),
         \<lparr>files = Map.empty, collection = []\<rparr>),
      (Inl (CodecError ''cannot identify image file''),
         \<lparr>files = Map.empty, collection = []\<rparr>)}"
proof -
  have h: "fst (compress_image ref_pil (upload ''x.png'' [1, 2, 3]) 500 100 75 90)
             = Inl (CodecError ''cannot identify image file'')"
    by (simp add: run_defs)
  show ?thesis
    using h upload_atomic_on_engine_failure
              [OF h, where uid = "''id''" and now = "''now''"
                 and w = "\<lparr>files = Map.empty, collection = []\<rparr>"]
    by simp
qed

text \<open>
  C9 (corrected). The claim: a configuration with a non-positive dimension or target, or
  with \<open>max_quality < min_quality\<close>, is rejected at the boundary and checked again at engine
  entry. \<^verbatim>\<open>compress_image\<close> has no check at entry, and nothing compares the two qualities:
  called with \<open>min_quality = 90\<close> and \<open>max_quality = 75\<close> it runs and returns.
\<close>

theorem engine_runs_on_inverted_qualities:
  "fst (compress_image ref_pil (upload ''a.jpg'' (rgb_file 2000 1000)) 500 100 90 75)
     = Inr (replicate 93750 0, (500, 250), 8, 93750)"
  by (simp add: run_defs scale_500_2000_1000)

text \<open>
  C9 as amended: the boundary, \<^verbatim>\<open>upload_image\<close>, rejects a non-positive \<open>max_dimension\<close> or
  \<open>target_size_kb\<close> with status 400 whatever the library does, so before the engine is
  called, and leaves the state untouched.
\<close>

theorem upload_rejects_nonpositive_parameters:
  assumes "max_dimension \<le> 0 \<or> target_size_kb \<le> 0"
  shows "upload_image P uid now w f max_dimension target_size_kb \<in>
           {(Inl (HTTPException 400 ''Unsupported file format''), w),
            (Inl (HTTPException 400 ''Invalid parameters''), w)}"
  using assms by (auto simp: upload_image_def)

theorem upload_rejects_nonpositive_parameters_witness:
  "((0::int) \<le> 0 \<or> (100::int) \<le> 0) \<and>
   upload_image ref_pil ''id'' ''now'' \<lparr>files = Map.empty, collection = []\<rparr>
       (upload ''a.jpg'' (rgb_file 2000 1000)) 0 100 \<in>
     {(Inl (HTTPException 400 ''Unsupported file format''),
         \<lparr>files = Map.empty, collection = []\<rparr>),
      (Inl (HTTPException 400 ''Invalid parameters''),
         \<lparr>files = Map.empty, collection = []\<rparr>)}"
proof -
  have h: "(0::int) \<le> 0 \<or> (100::int) \<le> 0" by simp
  show ?thesis
    using h upload_rejects_nonpositive_parameters
              [OF h, where P = ref_pil and uid = "''id''" and now = "''now''"
                 and w = "\<lparr>files = Map.empty, collection = []\<rparr>"
                 and f = "upload ''a.jpg'' (rgb_file 2000 1000)"]
    by simp
qed


section \<open>Termination and the number of encodes\<close>

text \<open>
  C10. The loop of line 66 terminates (\<open>reduce_quality\<close> is a total function: \<open>quality\<close>
  falls by 5 at every iteration while it is above \<open>min_quality\<close>). Lines 63 to 70 call
  \<^verbatim>\<open>img.save\<close> at most \<open>1 + \<lceil>(max_quality - min_quality) / 5\<rceil>\<close> times, and the whole call at
  most two times more, one for each of the two fallbacks; this counts the calls of runs
  that raise as well.
\<close>

theorem encode_count_bounded:
  "length (save_calls (and_then (first_encode P content max_dimension max_quality)
                         (reduce_quality P min_quality)))
           \<le> 1 + nat \<lceil>rat_of_int (max_quality - min_quality) / 5\<rceil> \<and>
   length (save_calls (compress_image_run P content max_dimension target_size_kb
                               min_quality max_quality))
           \<le> 1 + nat \<lceil>rat_of_int (max_quality - min_quality) / 5\<rceil> + 2"
proof -
  let ?b = "nat ((max_quality - min_quality + 4) div 5)"
  let ?r1 = "first_encode P content max_dimension max_quality"
  have loop: "length (save_calls (and_then ?r1 (reduce_quality P min_quality))) \<le> 1 + ?b"
  proof (cases ?r1)
    case (Inl a)
    then show ?thesis using first_encode_calls [of P content max_dimension max_quality]
      by (simp add: save_calls_and_then)
  next
    case (Inr s1)
    then have "length (saves s1) = 1" "quality s1 = max_quality"
      by (auto elim!: first_encode_Inr)
    with reduce_quality_calls [of P min_quality s1] Inr show ?thesis
      by (simp add: save_calls_and_then)
  qed
  then have part1: "length (save_calls (and_then ?r1 (reduce_quality P min_quality)))
           \<le> 1 + nat \<lceil>rat_of_int (max_quality - min_quality) / 5\<rceil>"
    by (simp only: ceil_fifth)
  have "length (save_calls (compress_image_run P content max_dimension target_size_kb
                               min_quality max_quality)) \<le> 1 + ?b + 2"
  proof (cases ?r1)
    case (Inl a)
    then show ?thesis using loop
      by (simp add: compress_image_run_def save_calls_and_then)
  next
    case r1: (Inr s1)
    show ?thesis
    proof (cases "reduce_quality P min_quality s1")
      case (Inl a)
      then show ?thesis using loop r1
        by (simp add: compress_image_run_def save_calls_and_then)
    next
      case r2: (Inr s2)
      then have l2: "length (saves s2) \<le> 1 + ?b"
        using loop r1 by (simp add: save_calls_and_then) (simp add: save_calls_def)
      show ?thesis
      proof (cases "shrink_dimensions P min_quality s2")
        case (Inl a)
        then show ?thesis
          using l2 r1 r2 shrink_dimensions_calls [of P min_quality s2]
          by (simp add: compress_image_run_def save_calls_and_then)
      next
        case r3: (Inr s3)
        then have "length (saves s3) \<le> length (saves s2) + 1"
          using shrink_dimensions_calls [of P min_quality s2] by (simp add: save_calls_def)
        then show ?thesis
          using l2 r1 r2 r3 boost_quality_calls [of P target_size_kb max_quality s3]
          by (simp add: compress_image_run_def save_calls_and_then)
      qed
    qed
  qed
  then have "length (save_calls (compress_image_run P content max_dimension target_size_kb
                               min_quality max_quality))
           \<le> 1 + nat \<lceil>rat_of_int (max_quality - min_quality) / 5\<rceil> + 2"
    by (simp only: ceil_fifth)
  with part1 show ?thesis by (rule conjI)
qed


section \<open>The returned value\<close>

text \<open>
  C3 as amended: on success \<^verbatim>\<open>compress_image\<close> returns four components, as its docstring
  lists them: the bytes written by the last call of \<^verbatim>\<open>img.save\<close>, which encoded the final
  image; the size of that image; the number of bytes read from the upload; and the number
  of bytes returned. The quality of the last save is not among them.
\<close>

theorem compress_image_returns_four_components:
  assumes "fst (compress_image P f max_dimension target_size_kb min_quality max_quality)
             = Inr (bs, dims, osz, csz)"
  shows "osz = int (length (fst (read f))) \<and> csz = int (length bs) \<and>
         (\<exists>s. compress_image_run P (fst (read f)) max_dimension target_size_kb
                 min_quality max_quality = Inr s \<and>
              dims = Image_size P (img s) \<and> saves s \<noteq> [] \<and>
              fst (last (saves s)) = dims \<and>
              Image_save P (img s) (snd (last (saves s))) = Inr bs)"
proof -
  from assms obtain s where
    r: "compress_image_run P (fst (read f)) max_dimension target_size_kb
          min_quality max_quality = Inr s"
    and e: "bs = output_bytes s" "dims = Image_size P (img s)" "osz = original_size s"
      "csz = tell s"
    by (auto simp: compress_image_def split_beta split: sum.splits)
  from run_invariant [OF r] e r show ?thesis
    by (auto simp: tell_def)
qed

text \<open>Witness for C3: a 2000 by 1000 image under the default parameters.\<close>

theorem compress_image_returns_four_components_witness:
  "fst (compress_image ref_pil (upload ''a.jpg'' (rgb_file 2000 1000)) 500 100 75 90)
     = Inr (replicate 112500 0, (500, 250), 8, 112500) \<and>
   (8 = int (length (fst (read (upload ''a.jpg'' (rgb_file 2000 1000))))) \<and>
    112500 = int (length (replicate 112500 (0 :: byte))) \<and>
    (\<exists>s. compress_image_run ref_pil (fst (read (upload ''a.jpg'' (rgb_file 2000 1000))))
            500 100 75 90 = Inr s \<and>
         (500, 250) = Image_size ref_pil (img s) \<and> saves s \<noteq> [] \<and>
         fst (last (saves s)) = (500, 250) \<and>
         Image_save ref_pil (img s) (snd (last (saves s))) = Inr (replicate 112500 0)))"
proof -
  have h: "fst (compress_image ref_pil (upload ''a.jpg'' (rgb_file 2000 1000)) 500 100 75 90)
             = Inr (replicate 112500 0, (500, 250), 8, 112500)"
    by (simp add: run_defs scale_500_2000_1000)
  from h compress_image_returns_four_components [OF h] show ?thesis by (rule conjI)
qed

text \<open>
  C3 (corrected). The claim: the quality used for the final encode is part of the returned
  value. The tuple of line 89 has no such component, so the returned value does not fix
  the quality: with a library for which a 5 by 4 image encodes to the same bytes at 90
  and at 92, the calls with \<open>max_quality = 90\<close> and with \<open>max_quality = 92\<close> return equal
  values after saving at different qualities.
\<close>

theorem returned_value_omits_quality:
  "fst (compress_image ref_pil (upload ''a.jpg'' (rgb_file 5 4)) 500 100 75 90)
     = fst (compress_image ref_pil (upload ''a.jpg'' (rgb_file 5 4)) 500 100 75 92) \<and>
   qualities (compress_image_run ref_pil (rgb_file 5 4) 500 100 75 90) = [90] \<and>
   qualities (compress_image_run ref_pil (rgb_file 5 4) 500 100 75 92) = [92]"
  by (simp add: run_defs qualities_def save_calls_def scale_500_5_4)


section \<open>The dimension fallback\<close>

text \<open>
  C4 (corrected). The claim: the fallback of line 73 shrinks each side by 0.9, rounded to
  the nearest integer, independently per axis. Line 74 applies \<^verbatim>\<open>int\<close>, which truncates, and
  line 75 resizes with \<^verbatim>\<open>thumbnail\<close>, which keeps the aspect ratio inside the box it is
  given. A 6666 by 6666 image with \<open>max_dimension = 3333\<close> is resized to 3333 by 3333 and
  then, by the fallback, to 2999 by 2999 (nine tenths being 2999.7, the claim gives 3000 by
  3000); a 2002 by 1998 image with \<open>max_dimension = 1001\<close> goes from 1001 by 999 to 900 by
  898 (the claim gives 901 by 899).
\<close>

theorem fallback_truncates_and_keeps_aspect:
  "save_calls (compress_image_run ref_pil (rgb_file 6666 6666) 3333 100 75 90)
     = [((3333, 3333), 90), ((3333, 3333), 85), ((3333, 3333), 80), ((3333, 3333), 75),
        ((2999, 2999), 75)] \<and>
   save_calls (compress_image_run ref_pil (rgb_file 2002 1998) 1001 100 75 90)
     = [((1001, 999), 90), ((1001, 999), 85), ((1001, 999), 80), ((1001, 999), 75),
        ((900, 898), 75)]"
  by (simp add: run_defs save_calls_def scale_3333_6666_6666 shrink_3333
        scale_1001_2002_1998 shrink_1001 shrink_999)

text \<open>
  C4 as amended: when the loop ends above 150 KiB, and only then, the fallback takes nine
  tenths of each side \<open>d\<close> of the image as it is after the first resize, rounded down
  (\<open>9 * d div 10\<close>), binds \<open>new_dimensions\<close> to the pair, resizes the current image with
  \<^verbatim>\<open>thumbnail\<close> to that box, and saves exactly once at \<open>min_quality\<close>; at most one more
  save, the boost of line 85, follows. Stated for the runs in which the first resize gave
  the image the size of the requested box, with sides below \<open>2^49\<close>.
\<close>

theorem dimension_fallback_truncates:
  assumes run: "compress_image_run P content max_dimension target_size_kb min_quality max_quality
                  = Inr s"
    and loop: "and_then (first_encode P content max_dimension max_quality)
                 (reduce_quality P min_quality) = Inr s2"
    and cur: "Image_size P (img s2) = (cw, ch)" and box: "max_dimensions s = (cw, ch)"
    and bnd: "0 \<le> cw" "cw < 2 ^ 49" "0 \<le> ch" "ch < 2 ^ 49"
  shows "if tell s2 > 150 * 1024
         then new_dimensions s = Some (9 * cw div 10, 9 * ch div 10) \<and>
              Image_thumbnail P (img s2) (9 * cw div 10, 9 * ch div 10) = Inr (img s) \<and>
              (\<exists>boost. saves s = saves s2 @ [(Image_size P (img s), min_quality)] @ boost \<and>
                 length boost \<le> 1)
         else new_dimensions s = None \<and> img s = img s2"
proof -
  from run obtain im0 s2' where
    l: "and_then (first_encode P content max_dimension max_quality)
       (reduce_quality P min_quality) = Inr s2'" and
    sh: "if tell s2' > 150 * 1024
     then \<exists>a b boost. shrink_dim (fst (max_dimensions s)) = Inr a \<and>
            shrink_dim (snd (max_dimensions s)) = Inr b \<and>
            new_dimensions s = Some (a, b) \<and>
            Image_thumbnail P (img s2') (a, b) = Inr (img s) \<and>
            saves s = saves s2' @ [(Image_size P (img s), min_quality)] @ boost \<and>
            length boost \<le> 1
     else new_dimensions s = None \<and> img s = img s2'"
    by (rule run_shape)
  from l loop have eq: "s2' = s2" by simp
  show ?thesis
  proof (cases "tell s2 > 150 * 1024")
    case False
    with sh eq show ?thesis by simp
  next
    case True
    with sh eq obtain a b boost where
      a: "shrink_dim cw = Inr a" and b: "shrink_dim ch = Inr b" and
      n: "new_dimensions s = Some (a, b)" and
      t: "Image_thumbnail P (img s2) (a, b) = Inr (img s)" and
      sv: "saves s = saves s2 @ [(Image_size P (img s), min_quality)] @ boost" and
      lb: "length boost \<le> 1"
      unfolding box by auto
    from a b bnd have "a = 9 * cw div 10" "b = 9 * ch div 10"
      by (simp_all add: shrink_dim_eq)
    with n t sv lb True show ?thesis by auto
  qed
qed

text \<open>
  Witness for C4: the 6666 by 6666 image above; rounding to nearest would give 3000 where
  the fallback asks for 2999.
\<close>

theorem dimension_fallback_truncates_witness:
  "let s2 = \<lparr>original_size = 8, img = \<lparr>r_mode = ''RGB'', r_size = (3333, 3333)\<rparr>,
              width = 6666, height = 6666, max_dimensions = (3333, 3333),
              output_bytes = replicate 8331666 0, quality = 75,
              new_dimensions = None,
              saves = [((3333, 3333), 90), ((3333, 3333), 85), ((3333, 3333), 80),
                       ((3333, 3333), 75)]\<rparr>;
       s = \<lparr>original_size = 8, img = \<lparr>r_mode = ''RGB'', r_size = (2999, 2999)\<rparr>,
             width = 6666, height = 6666, max_dimensions = (3333, 3333),
             output_bytes = replicate 6745500 0, quality = 75,
             new_dimensions = Some (2999, 2999),
             saves = [((3333, 3333), 90), ((3333, 3333), 85), ((3333, 3333), 80),
                      ((3333, 3333), 75), ((2999, 2999), 75)]\<rparr>
   in compress_image_run ref_pil (rgb_file 6666 6666) 3333 100 75 90 = Inr s \<and>
      and_then (first_encode ref_pil (rgb_file 6666 6666) 3333 90) (reduce_quality ref_pil 75)
        = Inr s2 \<and>
      Image_size ref_pil (img s2) = (3333, 3333) \<and> max_dimensions s = (3333, 3333) \<and>
      tell s2 > 150 * 1024 \<and>
      new_dimensions s = Some (9 * 3333 div 10, 9 * 3333 div 10) \<and>
      Image_thumbnail ref_pil (img s2) (9 * 3333 div 10, 9 * 3333 div 10) = Inr (img s) \<and>
      (\<exists>boost. saves s = saves s2 @ [(Image_size ref_pil (img s), 75)] @ boost \<and>
         length boost \<le> 1)"
proof -
  let ?s2 = "\<lparr>original_size = 8, img = \<lparr>r_mode = ''RGB'', r_size = (3333, 3333)\<rparr>,
              width = 6666, height = 6666, max_dimensions = (3333, 3333),
              output_bytes = replicate 8331666 0, quality = 75,
              new_dimensions = None,
              saves = [((3333, 3333), 90), ((3333, 3333), 85), ((3333, 3333), 80),
                       ((3333, 3333), 75)]\<rparr>"
  let ?s = "\<lparr>original_size = 8, img = \<lparr>r_mode = ''RGB'', r_size = (2999, 2999)\<rparr>,
             width = 6666, height = 6666, max_dimensions = (3333, 3333),
             output_bytes = replicate 6745500 0, quality = 75,
             new_dimensions = Some (2999, 2999),
             saves = [((3333, 3333), 90), ((3333, 3333), 85), ((3333, 3333), 80),
                      ((3333, 3333), 75), ((2999, 2999), 75)]\<rparr>"
  have h: "compress_image_run ref_pil (rgb_file 6666 6666) 3333 100 75 90 = Inr ?s"
    by (simp add: run_defs scale_3333_6666_6666 shrink_3333)
  have l: "and_then (first_encode ref_pil (rgb_file 6666 6666) 3333 90)
             (reduce_quality ref_pil 75) = Inr ?s2"
    by (simp add: run_defs scale_3333_6666_6666)
  have t: "tell ?s2 > 150 * 1024" by (simp add: tell_def)
  have c: "if tell ?s2 > 150 * 1024
         then new_dimensions ?s = Some (9 * 3333 div 10, 9 * 3333 div 10) \<and>
              Image_thumbnail ref_pil (img ?s2) (9 * 3333 div 10, 9 * 3333 div 10)
                = Inr (img ?s) \<and>
              (\<exists>boost. saves ?s = saves ?s2 @ [(Image_size ref_pil (img ?s), 75)] @ boost \<and>
                 length boost \<le> 1)
         else new_dimensions ?s = None \<and> img ?s = img ?s2"
    by (rule dimension_fallback_truncates [OF h l]) (simp_all add: ref_pil_def)
  have c': "new_dimensions ?s = Some (9 * 3333 div 10, 9 * 3333 div 10) \<and>
              Image_thumbnail ref_pil (img ?s2) (9 * 3333 div 10, 9 * 3333 div 10)
                = Inr (img ?s) \<and>
              (\<exists>boost. saves ?s = saves ?s2 @ [(Image_size ref_pil (img ?s), 75)] @ boost \<and>
                 length boost \<le> 1)"
    using c t by (simp only: if_True)
  have i: "Image_size ref_pil (img ?s2) = (3333, 3333) \<and> max_dimensions ?s = (3333, 3333)"
    by (simp add: ref_pil_def)
  show ?thesis unfolding Let_def using h l i t c' by (intro conjI) simp_all
qed


section \<open>The final size\<close>

text \<open>
  C1 (corrected). The claim: when the longer edge of the image exceeds \<open>max_dimension\<close>, the
  final longer edge equals \<open>max_dimension\<close> on every branch, the fallback of line 73
  included. The fallback resizes again: a 4000 by 2000 image with \<open>max_dimension = 2000\<close>
  that stays above 150 KiB is returned at 1800 by 900. Without the fallback the longer
  side need not reach \<open>max_dimension\<close> either: with the size rule of Pillow's
  \<^verbatim>\<open>thumbnail\<close>, a 1000 by 3 image and \<open>max_dimension = 500\<close> give the box 500 by 1 and the
  final size 333 by 1.
\<close>

theorem downscaled_image_shrinks_below_max_dimension:
  "fst (compress_image ref_pil (upload ''a.jpg'' (rgb_file 4000 2000)) 2000 100 75 90)
     = Inr (replicate 1215000 0, (1800, 900), 8, 1215000) \<and>
   fst (compress_image ref_pil (upload ''a.jpg'' (rgb_file 1000 3)) 500 100 75 90)
     = Inr (replicate 299 0, (333, 1), 8, 299)"
  by (simp add: run_defs scale_2000_4000_2000 shrink_2000 shrink_1000 scale_500_1000_3)

text \<open>
  C1 as amended: the box requested at line 55 has \<open>max_dimension\<close> on the side that is the
  longer one of the image; its other side is \<open>max_dimension * shorter / longer\<close> rounded
  down, or one less when that quotient is an integer which the two roundings of line 50
  fall short of. With a \<^verbatim>\<open>thumbnail\<close> that fits the image in the box by Pillow's size rule,
  the final image fits in the requested box, so that its longer edge is at most
  \<open>max_dimension\<close>, and on every branch its aspect ratio is the original one up to one
  pixel. When the fallback of line 73 has run, \<open>new_dimensions\<close> is the requested box with
  each side \<open>d\<close> replaced by \<open>9 * d div 10\<close>, and the final image fits in it. (For sides and
  \<open>max_dimension\<close> below \<open>2^26\<close>.)
\<close>

theorem final_size_within_requested_box:
  assumes fits: "thumbnail_fits P" and rule: "thumbnail_rounds_aspect P"
    and run: "compress_image_run P content max_dimension target_size_kb
                min_quality max_quality = Inr s"
    and w: "1 \<le> width s" "width s < 2 ^ 26" and h: "1 \<le> height s" "height s < 2 ^ 26"
    and m: "1 \<le> max_dimension" "max_dimension < 2 ^ 26"
  shows "(if height s \<le> width s
          then fst (max_dimensions s) = max_dimension \<and>
               (max_dimension * height s - 1) div width s \<le> snd (max_dimensions s) \<and>
               snd (max_dimensions s) \<le> max_dimension * height s div width s
          else snd (max_dimensions s) = max_dimension \<and>
               (max_dimension * width s - 1) div height s \<le> fst (max_dimensions s) \<and>
               fst (max_dimensions s) \<le> max_dimension * width s div height s) \<and>
         fst (Image_size P (img s)) \<le> fst (max_dimensions s) \<and>
         snd (Image_size P (img s)) \<le> snd (max_dimensions s) \<and>
         max (fst (Image_size P (img s))) (snd (Image_size P (img s))) \<le> max_dimension \<and>
         aspect_within 1 (Image_size P (img s)) (width s, height s) \<and>
         (new_dimensions s \<noteq> None \<longrightarrow>
            new_dimensions s
              = Some (9 * fst (max_dimensions s) div 10, 9 * snd (max_dimensions s) div 10) \<and>
            fst (Image_size P (img s)) \<le> 9 * fst (max_dimensions s) div 10 \<and>
            snd (Image_size P (img s)) \<le> 9 * snd (max_dimensions s) div 10)"
proof -
  from run obtain im0 s2 where
    sz: "Image_size P im0 = (width s, height s)" and
    tb: "target_box max_dimension (width s) (height s) = Inr (max_dimensions s)" and
    th: "Image_thumbnail P im0 (max_dimensions s) = Inr (img s2)" and
    sh: "if tell s2 > 150 * 1024
     then \<exists>a b boost. shrink_dim (fst (max_dimensions s)) = Inr a \<and>
            shrink_dim (snd (max_dimensions s)) = Inr b \<and>
            new_dimensions s = Some (a, b) \<and>
            Image_thumbnail P (img s2) (a, b) = Inr (img s) \<and>
            saves s = saves s2 @ [(Image_size P (img s), min_quality)] @ boost \<and>
            length boost \<le> 1
     else new_dimensions s = None \<and> img s = img s2"
    by (rule run_shape)
  obtain bw bh where box: "max_dimensions s = (bw, bh)" by (cases "max_dimensions s")
  obtain a2 b2 where sz2: "Image_size P (img s2) = (a2, b2)" by (cases "Image_size P (img s2)")
  obtain c d where szf: "Image_size P (img s) = (c, d)" by (cases "Image_size P (img s)")
  have w53: "width s < 2 ^ 53" and h53: "height s < 2 ^ 53" and m52: "max_dimension < 2 ^ 52"
    using w h m by simp_all
  from target_box_bounds [OF tb [unfolded box] w(1) w53 h(1) h53 m(1) m52]
  have b: "0 \<le> bw" "bw \<le> max_dimension" "0 \<le> bh" "bh \<le> max_dimension" by simp_all
  have near: "if height s \<le> width s
         then bw = max_dimension \<and> (max_dimension * height s - 1) div width s \<le> bh \<and>
              bh \<le> max_dimension * height s div width s
         else bh = max_dimension \<and> (max_dimension * width s - 1) div height s \<le> bw \<and>
              bw \<le> max_dimension * width s div height s"
    by (rule target_box_near [OF tb [unfolded box] w h m])
  have pin: "if height s \<le> width s
         then bw = max_dimension \<and> bh * width s \<le> max_dimension * height s
         else bh = max_dimension \<and> bw * height s \<le> max_dimension * width s"
    using near w h by (auto simp: le_div_mult)
  have fit: "fst (Image_size P im') \<le> x \<and> snd (Image_size P im') \<le> y"
    if "0 \<le> x" "0 \<le> y" "Image_thumbnail P im (x, y) = Inr im'" for im im' x y
    using fits [unfolded thumbnail_fits_def, rule_format, of "(x, y)" im im'] that by simp
  have follow: "follows_size_rule (Image_size P im) (x, y) (Image_size P im')"
    if "1 \<le> fst (Image_size P im)" "1 \<le> snd (Image_size P im)" "0 \<le> x" "0 \<le> y"
      "Image_thumbnail P im (x, y) = Inr im'" for im im' x y
    using rule [unfolded thumbnail_rounds_aspect_def, rule_format, of im "(x, y)" im'] that
    by simp
  from fit [OF b(1) b(3) th [unfolded box]] sz2
  have f2: "a2 \<le> bw" "b2 \<le> bh" by simp_all
  have r1: "follows_size_rule (width s, height s) (bw, bh) (a2, b2)"
    using follow [OF _ _ b(1) b(3) th [unfolded box]] sz sz2 w h by simp
  from follows_size_rule_bounds [OF r1 w(1) h(1)] have p2: "1 \<le> a2" "1 \<le> b2" by simp_all
  show ?thesis
  proof (cases "tell s2 > 150 * 1024")
    case False
    with sh have e: "new_dimensions s = None" "img s = img s2" by simp_all
    have "aspect_within 1 (a2, b2) (width s, height s)"
      by (rule one_resize_aspect [OF r1 w(1) h(1)])
    with e f2 b box sz2 near show ?thesis by simp
  next
    case True
    with sh obtain x y where
      x: "shrink_dim bw = Inr x" and y: "shrink_dim bh = Inr y" and
      n: "new_dimensions s = Some (x, y)" and
      t5: "Image_thumbnail P (img s2) (x, y) = Inr (img s)"
      unfolding box by auto
    have "bw < 2 ^ 49" "bh < 2 ^ 49" using b m by simp_all
    with x y b have xy: "x = 9 * bw div 10" "y = 9 * bh div 10"
      by (simp_all add: shrink_dim_eq)
    then have pos: "0 \<le> x" "0 \<le> y" and le: "x \<le> bw" "y \<le> bh"
      using b by simp_all
    from fit [OF pos t5] szf have f3: "c \<le> x" "d \<le> y" by simp_all
    have r2: "follows_size_rule (a2, b2) (9 * bw div 10, 9 * bh div 10) (c, d)"
      using follow [OF _ _ pos t5] sz2 szf p2 xy by simp
    have "aspect_within 1 (c, d) (width s, height s)"
      using w(1) h(1) pin r1 r2 f3 [unfolded xy] by (rule fallback_resize_aspect)
    with n xy f3 le b box szf near show ?thesis by simp
  qed
qed

text \<open>Witness for C1: the 4000 by 2000 image above, on the reference library.\<close>

theorem final_size_within_requested_box_witness:
  "let s = \<lparr>original_size = 8, img = \<lparr>r_mode = ''RGB'', r_size = (1800, 900)\<rparr>,
             width = 4000, height = 2000, max_dimensions = (2000, 1000),
             output_bytes = replicate 1215000 0, quality = 75,
             new_dimensions = Some (1800, 900),
             saves = [((2000, 1000), 90), ((2000, 1000), 85), ((2000, 1000), 80),
                      ((2000, 1000), 75), ((1800, 900), 75)]\<rparr>
   in compress_image_run ref_pil (rgb_file 4000 2000) 2000 100 75 90 = Inr s \<and>
      height s \<le> width s \<and>
      fst (max_dimensions s) = 2000 \<and>
      (2000 * height s - 1) div width s \<le> snd (max_dimensions s) \<and>
      snd (max_dimensions s) \<le> 2000 * height s div width s \<and>
      fst (Image_size ref_pil (img s)) \<le> fst (max_dimensions s) \<and>
      snd (Image_size ref_pil (img s)) \<le> snd (max_dimensions s) \<and>
      max (fst (Image_size ref_pil (img s))) (snd (Image_size ref_pil (img s))) \<le> 2000 \<and>
      aspect_within 1 (Image_size ref_pil (img s)) (width s, height s) \<and>
      new_dimensions s
        = Some (9 * fst (max_dimensions s) div 10, 9 * snd (max_dimensions s) div 10) \<and>
      fst (Image_size ref_pil (img s)) \<le> 9 * fst (max_dimensions s) div 10 \<and>
      snd (Image_size ref_pil (img s)) \<le> 9 * snd (max_dimensions s) div 10"
proof -
  let ?s = "\<lparr>original_size = 8, img = \<lparr>r_mode = ''RGB'', r_size = (1800, 900)\<rparr>,
             width = 4000, height = 2000, max_dimensions = (2000, 1000),
             output_bytes = replicate 1215000 0, quality = 75,
             new_dimensions = Some (1800, 900),
             saves = [((2000, 1000), 90), ((2000, 1000), 85), ((2000, 1000), 80),
                      ((2000, 1000), 75), ((1800, 900), 75)]\<rparr>"
  have h: "compress_image_run ref_pil (rgb_file 4000 2000) 2000 100 75 90 = Inr ?s"
    by (simp add: run_defs scale_2000_4000_2000 shrink_2000 shrink_1000)
  have c: "(if height ?s \<le> width ?s
          then fst (max_dimensions ?s) = 2000 \<and>
               (2000 * height ?s - 1) div width ?s \<le> snd (max_dimensions ?s) \<and>
               snd (max_dimensions ?s) \<le> 2000 * height ?s div width ?s
          else snd (max_dimensions ?s) = 2000 \<and>
               (2000 * width ?s - 1) div height ?s \<le> fst (max_dimensions ?s) \<and>
               fst (max_dimensions ?s) \<le> 2000 * width ?s div height ?s) \<and>
         fst (Image_size ref_pil (img ?s)) \<le> fst (max_dimensions ?s) \<and>
         snd (Image_size ref_pil (img ?s)) \<le> snd (max_dimensions ?s) \<and>
         max (fst (Image_size ref_pil (img ?s))) (snd (Image_size ref_pil (img ?s))) \<le> 2000 \<and>
         aspect_within 1 (Image_size ref_pil (img ?s)) (width ?s, height ?s) \<and>
         (new_dimensions ?s \<noteq> None \<longrightarrow>
            new_dimensions ?s
              = Some (9 * fst (max_dimensions ?s) div 10, 9 * snd (max_dimensions ?s) div 10) \<and>
            fst (Image_size ref_pil (img ?s)) \<le> 9 * fst (max_dimensions ?s) div 10 \<and>
            snd (Image_size ref_pil (img ?s)) \<le> 9 * snd (max_dimensions ?s) div 10)"
    by (rule final_size_within_requested_box
          [OF ref_pil_thumbnail_fits ref_pil_rounds_aspect h]) simp_all
  show ?thesis using h c by (simp add: Let_def)
qed

text \<open>
  C5 (corrected). The claim: an image whose sides do not exceed \<open>max_dimension\<close> is returned
  at its original size on every branch, the fallback of line 73 included. A 1900 by 1900
  image with \<open>max_dimension = 2000\<close> that stays above 150 KiB is resized to 1800 by 1800 by
  the fallback.
\<close>

theorem small_image_shrinks_in_fallback:
  "fst (compress_image ref_pil (upload ''a.jpg'' (rgb_file 1900 1900)) 2000 100 75 90)
     = Inr (replicate 2430000 0, (1800, 1800), 8, 2430000)"
  by (simp add: run_defs scale_2000_1900_1900 shrink_2000)

text \<open>
  C5 as amended: with a \<^verbatim>\<open>thumbnail\<close> that follows Pillow's size rule, an image whose sides
  do not exceed \<open>max_dimension\<close> is never enlarged: on every branch no final side exceeds
  the original one. It is returned at its original size whenever the fallback of line 73
  does not run, or runs with a box that covers the image. (For \<open>max_dimension\<close> below
  \<open>2^49\<close>.)
\<close>

theorem small_image_keeps_size:
  assumes rule: "thumbnail_rounds_aspect P"
    and run: "compress_image_run P content max_dimension target_size_kb
                min_quality max_quality = Inr s"
    and w: "1 \<le> width s" "width s \<le> max_dimension"
    and h: "1 \<le> height s" "height s \<le> max_dimension"
    and m: "max_dimension < 2 ^ 49"
  shows "fst (Image_size P (img s)) \<le> width s \<and> snd (Image_size P (img s)) \<le> height s \<and>
         (case new_dimensions s of
            None \<Rightarrow> Image_size P (img s) = (width s, height s)
          | Some nd \<Rightarrow> width s \<le> fst nd \<and> height s \<le> snd nd \<longrightarrow>
                         Image_size P (img s) = (width s, height s))"
proof -
  from run obtain im0 s2 where
    sz: "Image_size P im0 = (width s, height s)" and
    tb: "target_box max_dimension (width s) (height s) = Inr (max_dimensions s)" and
    th: "Image_thumbnail P im0 (max_dimensions s) = Inr (img s2)" and
    sh: "if tell s2 > 150 * 1024
     then \<exists>a b boost. shrink_dim (fst (max_dimensions s)) = Inr a \<and>
            shrink_dim (snd (max_dimensions s)) = Inr b \<and>
            new_dimensions s = Some (a, b) \<and>
            Image_thumbnail P (img s2) (a, b) = Inr (img s) \<and>
            saves s = saves s2 @ [(Image_size P (img s), min_quality)] @ boost \<and>
            length boost \<le> 1
     else new_dimensions s = None \<and> img s = img s2"
    by (rule run_shape)
  obtain bw bh where box: "max_dimensions s = (bw, bh)" by (cases "max_dimensions s")
  obtain a2 b2 where sz2: "Image_size P (img s2) = (a2, b2)" by (cases "Image_size P (img s2)")
  obtain c d where szf: "Image_size P (img s) = (c, d)" by (cases "Image_size P (img s)")
  have w53: "width s < 2 ^ 53" and h53: "height s < 2 ^ 53" and m52: "max_dimension < 2 ^ 52"
    and m1: "1 \<le> max_dimension"
    using w h m by simp_all
  from target_box_covers [OF tb [unfolded box] w(1) w53 h(1) h53 w(2) h(2)]
  have cov: "width s \<le> bw" "height s \<le> bh" by simp_all
  from target_box_bounds [OF tb [unfolded box] w(1) w53 h(1) h53 m1 m52]
  have b: "0 \<le> bw" "bw \<le> max_dimension" "0 \<le> bh" "bh \<le> max_dimension" by simp_all
  have follow: "follows_size_rule (Image_size P im) (x, y) (Image_size P im')"
    if "1 \<le> fst (Image_size P im)" "1 \<le> snd (Image_size P im)" "0 \<le> x" "0 \<le> y"
      "Image_thumbnail P im (x, y) = Inr im'" for im im' x y
    using rule [unfolded thumbnail_rounds_aspect_def, rule_format, of im "(x, y)" im'] that
    by simp
  have r1: "follows_size_rule (width s, height s) (bw, bh) (a2, b2)"
    using follow [OF _ _ b(1) b(3) th [unfolded box]] sz sz2 w h by simp
  from follows_size_rule_same [OF r1 cov] sz2
  have s2: "Image_size P (img s2) = (width s, height s)" by simp
  show ?thesis
  proof (cases "tell s2 > 150 * 1024")
    case False
    with sh have "new_dimensions s = None" "img s = img s2" by simp_all
    with s2 show ?thesis by simp
  next
    case True
    with sh obtain x y where
      x: "shrink_dim bw = Inr x" and y: "shrink_dim bh = Inr y" and
      n: "new_dimensions s = Some (x, y)" and
      t5: "Image_thumbnail P (img s2) (x, y) = Inr (img s)"
      unfolding box by auto
    have "bw < 2 ^ 49" "bh < 2 ^ 49" using b m by simp_all
    with x y b have "x = 9 * bw div 10" "y = 9 * bh div 10"
      by (simp_all add: shrink_dim_eq)
    then have pos: "0 \<le> x" "0 \<le> y" using b by simp_all
    have r: "follows_size_rule (width s, height s) (x, y) (c, d)"
      using follow [OF _ _ pos t5] s2 szf w h by simp
    from follows_size_rule_bounds [OF r w(1) h(1)]
    have le: "c \<le> width s" "d \<le> height s" by simp_all
    have "(c, d) = (width s, height s)" if "width s \<le> x" "height s \<le> y"
      using follows_size_rule_same [OF r that] .
    with le n szf show ?thesis by simp
  qed
qed

text \<open>Witness for C5: a 1500 by 1000 image that goes through the fallback unchanged.\<close>

theorem small_image_keeps_size_witness:
  "let s = \<lparr>original_size = 8, img = \<lparr>r_mode = ''RGB'', r_size = (1500, 1000)\<rparr>,
             width = 1500, height = 1000, max_dimensions = (2000, 1333),
             output_bytes = replicate 1125000 0, quality = 75,
             new_dimensions = Some (1800, 1199),
             saves = [((1500, 1000), 90), ((1500, 1000), 85), ((1500, 1000), 80),
                      ((1500, 1000), 75), ((1500, 1000), 75)]\<rparr>
   in compress_image_run ref_pil (rgb_file 1500 1000) 2000 100 75 90 = Inr s \<and>
      fst (Image_size ref_pil (img s)) \<le> width s \<and>
      snd (Image_size ref_pil (img s)) \<le> height s \<and>
      new_dimensions s = Some (1800, 1199) \<and> width s \<le> 1800 \<and> height s \<le> 1199 \<and>
      Image_size ref_pil (img s) = (width s, height s)"
proof -
  let ?s = "\<lparr>original_size = 8, img = \<lparr>r_mode = ''RGB'', r_size = (1500, 1000)\<rparr>,
             width = 1500, height = 1000, max_dimensions = (2000, 1333),
             output_bytes = replicate 1125000 0, quality = 75,
             new_dimensions = Some (1800, 1199),
             saves = [((1500, 1000), 90), ((1500, 1000), 85), ((1500, 1000), 80),
                      ((1500, 1000), 75), ((1500, 1000), 75)]\<rparr>"
  have h: "compress_image_run ref_pil (rgb_file 1500 1000) 2000 100 75 90 = Inr ?s"
    by (simp add: run_defs scale_2000_1500_1000 shrink_2000 shrink_1333)
  have c: "fst (Image_size ref_pil (img ?s)) \<le> width ?s \<and>
         snd (Image_size ref_pil (img ?s)) \<le> height ?s \<and>
         (case new_dimensions ?s of
            None \<Rightarrow> Image_size ref_pil (img ?s) = (width ?s, height ?s)
          | Some nd \<Rightarrow> width ?s \<le> fst nd \<and> height ?s \<le> snd nd \<longrightarrow>
                         Image_size ref_pil (img ?s) = (width ?s, height ?s))"
    by (rule small_image_keeps_size [OF ref_pil_rounds_aspect h]) simp_all
  show ?thesis using h c by (simp add: Let_def)
qed

end
